theory Spec2Isabelle
  imports Main "HOL-Library.Sublist" "HOL-Library.Multiset"
begin

section \<open>The Huffman codec of \<open>huff.py\<close>\<close>

subsection \<open>Data model\<close>

text \<open>
  The Python exceptions the code can raise. The source defines no exception class of
  its own; every failure is one of Python's built-in exceptions, raised by an indexing,
  an attribute access on \<open>None\<close>, a concatenation with \<open>None\<close> or the \<open>assert\<close>
  of \<open>_popmin\<close>.
\<close>

datatype error = IndexError | TypeError | AttributeError | AssertionError

fun error_name :: "error \<Rightarrow> string" where
  "error_name IndexError = ''IndexError''"
| "error_name TypeError = ''TypeError''"
| "error_name AttributeError = ''AttributeError''"
| "error_name AssertionError = ''AssertionError''"

text \<open>
  The dataclass \<open>HuffmanNode\<close>: \<open>value: Optional[str]\<close>, \<open>freq: int\<close>,
  \<open>left, right: Optional[HuffmanNode]\<close>. The field \<open>value\<close> is called \<open>val\<close> here.
  A Python \<open>str\<close> is a \<open>string\<close>; its characters are bytes, the symbol space
  \<open>ASCII_MAX = 256\<close> of the source. A character of code 256 or more, on which the
  source raises \<open>IndexError\<close> when it indexes a table of 256 entries, is not in the
  type; an index beyond a table that is shorter is.
\<close>

datatype HuffmanNode =
  HuffmanNode (val: "string option") (freq: int)
              (left: "HuffmanNode option") (right: "HuffmanNode option")

definition ASCII_MAX :: nat where
  "ASCII_MAX = 256"

definition ord :: "char \<Rightarrow> nat" where
  "ord c = of_char c"

text \<open>Python's truth value of an \<open>Optional[str]\<close> and of an optional list.\<close>

fun truthy :: "'a list option \<Rightarrow> bool" where
  "truthy None = False"
| "truthy (Some xs) = (xs \<noteq> [])"

text \<open>\<open>ord(s)\<close> of a string: a \<open>TypeError\<close> unless the string has length one.\<close>

fun ord_str :: "string \<Rightarrow> error + nat" where
  "ord_str [c] = Inr (ord c)"
| "ord_str s = Inl TypeError"

type_synonym frequency_table = "HuffmanNode option list"

type_synonym dict = "bool list option list"

subsection \<open>\<open>construct_frequency_table\<close>\<close>

fun construct_frequency_table_loop ::
  "string \<Rightarrow> frequency_table \<Rightarrow> error + frequency_table" where
  "construct_frequency_table_loop [] frequency_table = Inr frequency_table"
| "construct_frequency_table_loop (char # string) frequency_table =
     (if ord char < length frequency_table then
        let node = (case frequency_table ! ord char of
                      Some n \<Rightarrow> n
                    | None \<Rightarrow> HuffmanNode (Some [char]) 0 None None);
            node = HuffmanNode (val node) (freq node + 1) (left node) (right node)
        in construct_frequency_table_loop string (frequency_table[ord char := Some node])
      else Inl IndexError)"

definition construct_frequency_table :: "string \<Rightarrow> error + frequency_table" where
  "construct_frequency_table string =
     construct_frequency_table_loop string (replicate ASCII_MAX None)"

subsection \<open>\<open>_popmin\<close> and \<open>construct_huffman_tree\<close>\<close>

text \<open>
  \<open>_popmin\<close> pops the head of one of the two lists; the model returns the popped node
  and the two lists as they are afterwards.
\<close>

fun popmin ::
  "HuffmanNode list \<Rightarrow> HuffmanNode list \<Rightarrow>
   error + (HuffmanNode \<times> HuffmanNode list \<times> HuffmanNode list)" where
  "popmin list1 list2 =
     (if \<not> (length list1 + length list2 > 0) then Inl AssertionError
      else if list1 = [] \<or> (list2 \<noteq> [] \<and> freq (hd list2) < freq (hd list1))
      then Inr (hd list2, list1, tl list2)
      else Inr (hd list1, tl list1, list2))"

text \<open>
  One round of the \<open>while\<close> loop of \<open>construct_huffman_tree\<close> (its body), on the pair
  \<open>(queue, node_queue)\<close>, and the loop itself; the loop returns the two lists as they
  are when it ends.
\<close>

definition huffman_round ::
  "HuffmanNode list \<Rightarrow> HuffmanNode list \<Rightarrow>
   error + (HuffmanNode list \<times> HuffmanNode list)" where
  "huffman_round queue node_queue =
     (case popmin queue node_queue of
        Inl e \<Rightarrow> Inl e
      | Inr (first, queue1, node_queue1) \<Rightarrow>
          (case popmin queue1 node_queue1 of
             Inl e \<Rightarrow> Inl e
           | Inr (second, queue2, node_queue2) \<Rightarrow>
               Inr (queue2,
                    node_queue2 @
                      [HuffmanNode None (freq first + freq second)
                         (Some first) (Some second)])))"

function huffman_loop ::
  "HuffmanNode list \<Rightarrow> HuffmanNode list \<Rightarrow>
   error + (HuffmanNode list \<times> HuffmanNode list)" where
  "huffman_loop queue node_queue =
     (if length queue + length node_queue > 1 then
        (case huffman_round queue node_queue of
           Inl e \<Rightarrow> Inl e
         | Inr (queue', node_queue') \<Rightarrow> huffman_loop queue' node_queue')
      else Inr (queue, node_queue))"
  by pat_completeness auto

termination
proof (relation "measure (\<lambda>(queue, node_queue). length queue + length node_queue)",
    goal_cases)
  case 1
  show ?case by simp
next
  case (2 queue node_queue result queue' node_queue')
  have pop: "Suc (length q + length nq) = length list1 + length list2"
    if "popmin list1 list2 = Inr (x, q, nq)" for list1 list2 x q nq
    using that by (auto split: if_splits)
  from 2 show ?case
    by (auto simp: huffman_round_def split: sum.splits dest!: pop simp del: popmin.simps)
qed

declare huffman_loop.simps [simp del]

text \<open>
  The comprehension \<open>[node for node in frequency_table if node]\<close> keeps the entries
  that are not \<open>None\<close> (a dataclass instance is always true); \<open>sorted(..., key=...)\<close>
  is a stable sort, as \<open>sort_key\<close> is.
\<close>

fun present_nodes :: "frequency_table \<Rightarrow> HuffmanNode list" where
  "present_nodes [] = []"
| "present_nodes (None # frequency_table) = present_nodes frequency_table"
| "present_nodes (Some node # frequency_table) = node # present_nodes frequency_table"

definition construct_huffman_tree :: "frequency_table \<Rightarrow> error + HuffmanNode" where
  "construct_huffman_tree frequency_table =
     (case huffman_loop (sort_key freq (present_nodes frequency_table)) [] of
        Inl e \<Rightarrow> Inl e
      | Inr (queue, node_queue) \<Rightarrow>
          (case node_queue of [] \<Rightarrow> Inl IndexError | node # _ \<Rightarrow> Inr node))"

subsection \<open>\<open>construct_dict\<close>\<close>

text \<open>\<open>dictionary[ord(node.value)] = prefix\<close>.\<close>

definition store_prefix :: "dict \<Rightarrow> string \<Rightarrow> bool list \<Rightarrow> error + dict" where
  "store_prefix dictionary v prefix' =
     (case ord_str v of
        Inl e \<Rightarrow> Inl e
      | Inr i \<Rightarrow> if i < length dictionary then Inr (dictionary[i := Some prefix'])
                 else Inl IndexError)"

function construct_dict ::
  "HuffmanNode option \<Rightarrow> dict option \<Rightarrow> bool list option \<Rightarrow> error + dict" where
  "construct_dict node dictionary prefix' =
     (let (dictionary, prefix') =
            (if \<not> truthy dictionary \<or> \<not> truthy prefix'
             then (replicate ASCII_MAX None, [])
             else (the dictionary, the prefix'))
      in case node of
           None \<Rightarrow> Inr dictionary
         | Some n \<Rightarrow>
             (case (if truthy (val n) then store_prefix dictionary (the (val n)) prefix'
                    else Inr dictionary) of
                Inl e \<Rightarrow> Inl e
              | Inr dictionary \<Rightarrow>
                  (case construct_dict (left n) (Some dictionary) (Some (prefix' @ [False])) of
                     Inl e \<Rightarrow> Inl e
                   | Inr dictionary \<Rightarrow>
                       construct_dict (right n) (Some dictionary)
                         (Some (prefix' @ [True])))))"
  by pat_completeness auto

termination
proof (relation "measure (\<lambda>(node, dictionary, prefix'). size_option size node)",
    goal_cases)
  case 1
  show ?case by simp
next
  case (2 node dictionary prefix' x xa y n)
  then show ?case by (cases n) simp
next
  case (3 node dictionary prefix' x xa y n)
  then show ?case by (cases n) simp
qed

declare construct_dict.simps [simp del]

subsection \<open>\<open>encode\<close> and \<open>decode\<close>\<close>

fun encode_loop :: "string \<Rightarrow> dict \<Rightarrow> bool list \<Rightarrow> error + bool list" where
  "encode_loop [] dictionary out = Inr out"
| "encode_loop (char # string) dictionary out =
     (if ord char < length dictionary then
        (case dictionary ! ord char of
           None \<Rightarrow> Inl TypeError
         | Some sequence \<Rightarrow> encode_loop string dictionary (out @ sequence))
      else Inl IndexError)"

definition encode :: "string \<Rightarrow> dict \<Rightarrow> error + bool list" where
  "encode string dictionary = encode_loop string dictionary []"

text \<open>
  The loop of \<open>decode\<close> on the pair \<open>(string, curr_node)\<close>. Reading \<open>.value\<close> of a
  child that is \<open>None\<close> raises \<open>AttributeError\<close>.
\<close>

fun decode_loop ::
  "bool list \<Rightarrow> HuffmanNode \<Rightarrow> string \<Rightarrow> HuffmanNode \<Rightarrow> error + (string \<times> HuffmanNode)" where
  "decode_loop [] root string curr_node = Inr (string, curr_node)"
| "decode_loop (bit' # bit_list) root string curr_node =
     (case (if bit' then right curr_node else left curr_node) of
        None \<Rightarrow> Inl AttributeError
      | Some curr_node \<Rightarrow>
          if truthy (val curr_node)
          then decode_loop bit_list root (string @ the (val curr_node)) root
          else decode_loop bit_list root string curr_node)"

definition decode :: "bool list \<Rightarrow> HuffmanNode \<Rightarrow> error + string" where
  "decode bit_list root =
     (case decode_loop bit_list root [] root of
        Inl e \<Rightarrow> Inl e
      | Inr (string, curr_node) \<Rightarrow> Inr string)"

section \<open>Vocabulary of the properties\<close>

subsection \<open>The pipeline of \<open>main\<close>\<close>

text \<open>
  \<open>main\<close> builds the tree and the dictionary of its input string (lines 148 to 150):
  \<open>construct_dict\<close> is called with the root alone, its other two parameters at
  their default \<open>None\<close>.
\<close>

definition huffman_tree_of :: "string \<Rightarrow> error + HuffmanNode" where
  "huffman_tree_of string =
     (case construct_frequency_table string of
        Inl e \<Rightarrow> Inl e
      | Inr frequency_table \<Rightarrow> construct_huffman_tree frequency_table)"

definition dictionary_of :: "string \<Rightarrow> error + dict" where
  "dictionary_of string =
     (case huffman_tree_of string of
        Inl e \<Rightarrow> Inl e
      | Inr root_node \<Rightarrow> construct_dict (Some root_node) None None)"

subsection \<open>Concrete nodes and tables\<close>

text \<open>
  A node as \<open>construct_frequency_table\<close> creates it for a symbol, a node as the loop
  creates it over two nodes, and the table of \<open>ASCII_MAX\<close> entries that holds the given
  values at the codes of the given characters and \<open>None\<close> elsewhere.
\<close>

abbreviation leaf :: "char \<Rightarrow> int \<Rightarrow> HuffmanNode" where
  "leaf c n \<equiv> HuffmanNode (Some [c]) n None None"

abbreviation inner :: "int \<Rightarrow> HuffmanNode \<Rightarrow> HuffmanNode \<Rightarrow> HuffmanNode" where
  "inner n l r \<equiv> HuffmanNode None n (Some l) (Some r)"

definition entries :: "(char \<times> 'a) list \<Rightarrow> 'a option list" where
  "entries xs = fold (\<lambda>(c, v) table. table[ord c := Some v]) xs (replicate ASCII_MAX None)"

subsection \<open>Partial codewords\<close>

text \<open>
  A bit list is a partial codeword below a node when following it from that node meets
  only children that exist and carry no value: the decoder has left the node and has
  not reached a symbol.
\<close>

fun partial_codeword :: "HuffmanNode \<Rightarrow> bool list \<Rightarrow> bool" where
  "partial_codeword node [] = True"
| "partial_codeword node (bit' # bit_list) =
     (case (if bit' then right node else left node) of
        None \<Rightarrow> False
      | Some child \<Rightarrow> \<not> truthy (val child) \<and> partial_codeword child bit_list)"

subsection \<open>The states of the loop\<close>

text \<open>
  The states \<open>(queue, node_queue)\<close> at the head of the \<open>while\<close> loop of
  \<open>construct_huffman_tree\<close> called on a frequency table: the state the loop starts in,
  and the state after each round the loop runs.
\<close>

inductive loop_state :: "frequency_table \<Rightarrow> HuffmanNode list \<Rightarrow> HuffmanNode list \<Rightarrow> bool"
  for frequency_table where
  initial: "loop_state frequency_table (sort_key freq (present_nodes frequency_table)) []"
| round: "loop_state frequency_table queue node_queue \<Longrightarrow>
          length queue + length node_queue > 1 \<Longrightarrow>
          huffman_round queue node_queue = Inr (queue', node_queue') \<Longrightarrow>
          loop_state frequency_table queue' node_queue'"

text \<open>
  The pending nodes in the order of their insertion are \<open>queue @ node_queue\<close>: the
  leaves first, in the order the stable sort gives them (among equal weights, the
  order of the table), then the internal nodes in the order of their creation.
  \<open>takes_earliest_min pending node rest\<close>: \<open>node\<close> stands at a position of \<open>pending\<close>
  whose weight is the smallest and strictly smaller than the weight at every earlier
  position, and \<open>rest\<close> is \<open>pending\<close> without that position.
\<close>

definition takes_earliest_min ::
  "HuffmanNode list \<Rightarrow> HuffmanNode \<Rightarrow> HuffmanNode list \<Rightarrow> bool" where
  "takes_earliest_min pending node rest \<longleftrightarrow>
     (\<exists>i < length pending.
        node = pending ! i \<and> rest = take i pending @ drop (Suc i) pending \<and>
        (\<forall>k < length pending. freq node \<le> freq (pending ! k)) \<and>
        (\<forall>k < i. freq node < freq (pending ! k)))"

text \<open>
  The invariant of the loop: both lists are sorted by weight, and either no weight is
  negative and no internal node weighs more than twice a pending node, or there is at
  most one internal node and it weighs less than every leaf left in \<open>queue\<close>.
\<close>

definition queues_inv :: "HuffmanNode list \<Rightarrow> HuffmanNode list \<Rightarrow> bool" where
  "queues_inv queue node_queue \<longleftrightarrow>
     sorted (map freq queue) \<and> sorted (map freq node_queue) \<and>
     ((\<forall>x \<in> set queue \<union> set node_queue. 0 \<le> freq x \<and>
         (\<forall>y \<in> set node_queue. freq y \<le> 2 * freq x))
      \<or> (length node_queue \<le> 1 \<and>
          (\<forall>x \<in> set queue. \<forall>y \<in> set node_queue. freq y < freq x)))"

subsection \<open>Code trees\<close>

text \<open>
  The trees the builder produces, without the weights: a leaf carries a symbol, an
  internal node two subtrees. \<open>conc w\<close> gives the \<open>HuffmanNode\<close> of a tree whose leaves
  weigh as \<open>w\<close> says; \<open>path\<close> is the way from the root to a leaf, \<open>False\<close> for left.
\<close>

datatype 'a code_tree = Leaf 'a | Fork "'a code_tree" "'a code_tree"

fun leaves :: "'a code_tree \<Rightarrow> 'a list" where
  "leaves (Leaf c) = [c]"
| "leaves (Fork l r) = leaves l @ leaves r"

fun weight :: "('a \<Rightarrow> int) \<Rightarrow> 'a code_tree \<Rightarrow> int" where
  "weight w (Leaf c) = w c"
| "weight w (Fork l r) = weight w l + weight w r"

fun conc :: "(char \<Rightarrow> int) \<Rightarrow> char code_tree \<Rightarrow> HuffmanNode" where
  "conc w (Leaf c) = HuffmanNode (Some [c]) (w c) None None"
| "conc w (Fork l r) =
     HuffmanNode None (weight w l + weight w r) (Some (conc w l)) (Some (conc w r))"

fun path :: "'a code_tree \<Rightarrow> 'a \<Rightarrow> bool list" where
  "path (Leaf c) x = []"
| "path (Fork l r) x = (if x \<in> set (leaves l) then False # path l x else True # path r x)"

text \<open>
  \<open>codes t p\<close> lists the leaves of \<open>t\<close> with their codewords below the prefix \<open>p\<close>, in the
  order in which \<open>construct_dict\<close> visits them; \<open>store_all\<close> writes such a list into a
  dictionary.
\<close>

fun codes :: "'a code_tree \<Rightarrow> bool list \<Rightarrow> ('a \<times> bool list) list" where
  "codes (Leaf c) p = [(c, p)]"
| "codes (Fork l r) p = codes l (p @ [False]) @ codes r (p @ [True])"

fun store_all :: "(char \<times> bool list) list \<Rightarrow> dict \<Rightarrow> dict" where
  "store_all [] d = d"
| "store_all ((c, p) # cs) d = store_all cs (d[ord c := Some p])"

subsection \<open>Tree construction on code trees\<close>

text \<open>
  \<open>_popmin\<close>, the round and the loop once more, on code trees with weight function \<open>w\<close>;
  \<open>huffman_loop_conc\<close> shows that the loop of the source, run on the nodes of code trees,
  computes the nodes of what \<open>tree_loop\<close> computes.
\<close>

definition tree_popmin ::
  "('a \<Rightarrow> int) \<Rightarrow> 'a code_tree list \<Rightarrow> 'a code_tree list \<Rightarrow>
   'a code_tree \<times> 'a code_tree list \<times> 'a code_tree list" where
  "tree_popmin w list1 list2 =
     (if list1 = [] \<or> (list2 \<noteq> [] \<and> weight w (hd list2) < weight w (hd list1))
      then (hd list2, list1, tl list2)
      else (hd list1, tl list1, list2))"

definition tree_round ::
  "('a \<Rightarrow> int) \<Rightarrow> 'a code_tree list \<Rightarrow> 'a code_tree list \<Rightarrow>
   'a code_tree list \<times> 'a code_tree list" where
  "tree_round w queue node_queue =
     (case tree_popmin w queue node_queue of
        (first, queue1, node_queue1) \<Rightarrow>
          (case tree_popmin w queue1 node_queue1 of
             (second, queue2, node_queue2) \<Rightarrow>
               (queue2, node_queue2 @ [Fork first second])))"

function tree_loop ::
  "('a \<Rightarrow> int) \<Rightarrow> 'a code_tree list \<Rightarrow> 'a code_tree list \<Rightarrow>
   'a code_tree list \<times> 'a code_tree list" where
  "tree_loop w queue node_queue =
     (if length queue + length node_queue > 1 then
        (case tree_round w queue node_queue of
           (queue', node_queue') \<Rightarrow> tree_loop w queue' node_queue')
      else (queue, node_queue))"
  by pat_completeness auto

termination
proof (relation "measure (\<lambda>(w, queue, node_queue). length queue + length node_queue)",
    goal_cases)
  case 1
  show ?case by simp
next
  case (2 w queue node_queue queue' node_queue')
  have pop: "Suc (length q + length nq) = length list1 + length list2"
    if "tree_popmin w list1 list2 = (x, q, nq)" "0 < length list1 + length list2"
    for list1 list2 x q nq
    using that by (auto simp: tree_popmin_def split: if_splits)
  obtain a q1 nq1 where a: "tree_popmin w queue node_queue = (a, q1, nq1)"
    by (cases "tree_popmin w queue node_queue")
  obtain b q2 nq2 where b: "tree_popmin w q1 nq1 = (b, q2, nq2)"
    by (cases "tree_popmin w q1 nq1")
  from 2(1) have "0 < length queue + length node_queue" by linarith
  from pop[OF a this] have 1: "Suc (length q1 + length nq1) = length queue + length node_queue" .
  with 2(1) have "0 < length q1 + length nq1" by linarith
  from pop[OF b this] have "Suc (length q2 + length nq2) = length q1 + length nq1" .
  with 1 2(2) a b show ?case by (simp add: tree_round_def)
qed

declare tree_loop.simps [simp del]

text \<open>The leaves of all pending trees.\<close>

definition forest_leaves :: "'a code_tree list \<Rightarrow> 'a code_tree list \<Rightarrow> 'a multiset" where
  "forest_leaves queue node_queue = mset (concat (map leaves (queue @ node_queue)))"

subsection \<open>Frequency tables\<close>

text \<open>
  A frequency table as \<open>construct_frequency_table\<close> builds them: the entry at index
  \<open>i\<close> is \<open>None\<close> or a node without children whose value is the character of code \<open>i\<close>.
\<close>

fun leaf_entries :: "nat \<Rightarrow> frequency_table \<Rightarrow> bool" where
  "leaf_entries i [] = True"
| "leaf_entries i (None # frequency_table) = leaf_entries (Suc i) frequency_table"
| "leaf_entries i (Some node # frequency_table) =
     ((case val node of
         Some [c] \<Rightarrow> ord c = i \<and> left node = None \<and> right node = None
       | _ \<Rightarrow> False)
      \<and> leaf_entries (Suc i) frequency_table)"

definition symbol_table :: "frequency_table \<Rightarrow> bool" where
  "symbol_table frequency_table = leaf_entries 0 frequency_table"

text \<open>
  The character of a code, the weight a table gives a symbol, and the symbols that
  have an entry, in the order of the table.
\<close>

definition chr :: "nat \<Rightarrow> char" where
  "chr i = char_of i"

definition table_weight :: "frequency_table \<Rightarrow> char \<Rightarrow> int" where
  "table_weight frequency_table c =
     (case frequency_table ! ord c of None \<Rightarrow> 0 | Some node \<Rightarrow> freq node)"

definition table_symbols :: "frequency_table \<Rightarrow> char list" where
  "table_symbols frequency_table =
     map chr (filter (\<lambda>i. frequency_table ! i \<noteq> None) [0..<length frequency_table])"

text \<open>The table that holds the counts \<open>cnt\<close>: no entry for a symbol counted zero times.\<close>

definition counts_table :: "(char \<Rightarrow> nat) \<Rightarrow> frequency_table \<Rightarrow> bool" where
  "counts_table cnt ft \<longleftrightarrow>
     length ft = ASCII_MAX \<and>
     (\<forall>c. ft ! ord c =
        (if cnt c = 0 then None else Some (HuffmanNode (Some [c]) (int (cnt c)) None None)))"

subsection \<open>Cost and optimal trees\<close>

text \<open>
  The cost of a tree under a weight function is the sum, over its leaves, of the weight
  of the leaf times its depth: the number of bits the tree spends on a text in which
  every symbol occurs as often as its weight says (\<open>cost_sum\<close>).
\<close>

fun cost :: "('a \<Rightarrow> int) \<Rightarrow> 'a code_tree \<Rightarrow> int" where
  "cost w (Leaf c) = 0"
| "cost w (Fork l r) = cost w l + cost w r + weight w l + weight w r"

text \<open>
  The height of a tree; a tree with its symbols renamed; the function that exchanges
  two symbols.
\<close>

fun height :: "'a code_tree \<Rightarrow> nat" where
  "height (Leaf c) = 0"
| "height (Fork l r) = Suc (max (height l) (height r))"

fun rename :: "('a \<Rightarrow> 'b) \<Rightarrow> 'a code_tree \<Rightarrow> 'b code_tree" where
  "rename f (Leaf c) = Leaf (f c)"
| "rename f (Fork l r) = Fork (rename f l) (rename f r)"

definition exchange :: "'a \<Rightarrow> 'a \<Rightarrow> 'a \<Rightarrow> 'a" where
  "exchange a b c = (if c = a then b else if c = b then a else c)"

text \<open>
  \<open>siblings t x y\<close>: somewhere in \<open>t\<close> the leaves of \<open>x\<close> and \<open>y\<close> are the two children of
  one node. \<open>merge_siblings\<close> replaces that node by the leaf of \<open>x\<close>, \<open>split_leaf\<close> does the
  converse, and \<open>deepest_pair\<close> finds two sibling leaves at the greatest depth.
\<close>

fun siblings :: "'a code_tree \<Rightarrow> 'a \<Rightarrow> 'a \<Rightarrow> bool" where
  "siblings (Leaf c) x y = False"
| "siblings (Fork l r) x y = ((l = Leaf x \<and> r = Leaf y) \<or> siblings l x y \<or> siblings r x y)"

fun merge_siblings :: "'a \<Rightarrow> 'a \<Rightarrow> 'a code_tree \<Rightarrow> 'a code_tree" where
  "merge_siblings x y (Leaf c) = Leaf c"
| "merge_siblings x y (Fork l r) =
     (if l = Leaf x \<and> r = Leaf y then Leaf x
      else Fork (merge_siblings x y l) (merge_siblings x y r))"

fun split_leaf :: "'a \<Rightarrow> 'a \<Rightarrow> 'a code_tree \<Rightarrow> 'a code_tree" where
  "split_leaf a b (Leaf c) = (if c = a then Fork (Leaf a) (Leaf b) else Leaf c)"
| "split_leaf a b (Fork l r) = Fork (split_leaf a b l) (split_leaf a b r)"

fun deepest_pair :: "'a code_tree \<Rightarrow> 'a \<times> 'a" where
  "deepest_pair (Leaf c) = (c, c)"
| "deepest_pair (Fork (Leaf x) (Leaf y)) = (x, y)"
| "deepest_pair (Fork l r) =
     (if height r \<le> height l then deepest_pair l else deepest_pair r)"

text \<open>
  A tree is optimal for \<open>w\<close> when no tree with the same symbols, each once, costs less.
\<close>

definition optimal :: "('a \<Rightarrow> int) \<Rightarrow> 'a code_tree \<Rightarrow> bool" where
  "optimal w t \<longleftrightarrow>
     (\<forall>u. distinct (leaves u) \<longrightarrow> set (leaves u) = set (leaves t) \<longrightarrow> cost w t \<le> cost w u)"

text \<open>The invariant \<open>queues_inv\<close> once more, on the lists of weights.\<close>

definition weights_inv :: "int list \<Rightarrow> int list \<Rightarrow> bool" where
  "weights_inv xs ys \<longleftrightarrow>
     sorted xs \<and> sorted ys \<and>
     (\<forall>x \<in> set xs \<union> set ys. 0 \<le> x \<and> (\<forall>y \<in> set ys. y \<le> 2 * x))"

definition tree_inv :: "('a \<Rightarrow> int) \<Rightarrow> 'a code_tree list \<Rightarrow> 'a code_tree list \<Rightarrow> bool" where
  "tree_inv w queue node_queue =
     weights_inv (map (weight w) queue) (map (weight w) node_queue)"

subsection \<open>Prefix-free codes and codeword lengths\<close>

text \<open>
  A binary code on the symbols of \<open>A\<close> is prefix-free when no codeword is a prefix of
  the codeword of another symbol. Every prefix-free code has a tree that spends no more
  bits on any symbol (\<open>prefix_free_tree\<close>).
\<close>

definition prefix_free :: "'a set \<Rightarrow> ('a \<Rightarrow> bool list) \<Rightarrow> bool" where
  "prefix_free A code \<longleftrightarrow> (\<forall>a \<in> A. \<forall>b \<in> A. a \<noteq> b \<longrightarrow> \<not> prefix (code a) (code b))"

text \<open>The length of the codeword a dictionary holds for a symbol.\<close>

definition codeword_length :: "dict \<Rightarrow> char \<Rightarrow> nat" where
  "codeword_length dictionary c =
     (case dictionary ! ord c of None \<Rightarrow> 0 | Some sequence \<Rightarrow> length sequence)"

section \<open>Lengths of the queues\<close>

lemma popmin_length:
  "popmin list1 list2 = Inr (x, q, nq) \<Longrightarrow>
   Suc (length q + length nq) = length list1 + length list2"
  by (auto split: if_splits)

lemma huffman_round_length:
  "huffman_round queue node_queue = Inr (queue', node_queue') \<Longrightarrow>
   Suc (length queue' + length node_queue') = length queue + length node_queue"
  unfolding huffman_round_def
  by (auto split: sum.splits dest!: popmin_length simp del: popmin.simps)

section \<open>Concrete runs and failures\<close>

lemma ord_less: "ord c < ASCII_MAX"
  by (simp add: ord_def ASCII_MAX_def)

text \<open>
  C8: on the input \<open>abb\<close> the frequency table holds \<open>a\<close> once and \<open>b\<close> twice, the
  tree is a root of weight 3 over the leaf of \<open>a\<close> (left) and the leaf of \<open>b\<close> (right),
  the dictionary maps \<open>a\<close> to \<open>[0]\<close> and \<open>b\<close> to \<open>[1]\<close>, the encoding is \<open>[0,1,1]\<close> and
  decoding it gives \<open>abb\<close> again.
\<close>

theorem abb_scenario:
  "construct_frequency_table ''abb'' =
     Inr (entries [(CHR ''a'', leaf CHR ''a'' 1), (CHR ''b'', leaf CHR ''b'' 2)])
   \<and> huffman_tree_of ''abb'' = Inr (inner 3 (leaf CHR ''a'' 1) (leaf CHR ''b'' 2))
   \<and> dictionary_of ''abb'' = Inr (entries [(CHR ''a'', [False]), (CHR ''b'', [True])])
   \<and> encode ''abb'' (entries [(CHR ''a'', [False]), (CHR ''b'', [True])])
       = Inr [False, True, True]
   \<and> decode [False, True, True] (inner 3 (leaf CHR ''a'' 1) (leaf CHR ''b'' 2))
       = Inr ''abb''"
  by code_simp

text \<open>
  C10: the empty string is encoded as the empty bit list against every dictionary, and
  the empty bit list is decoded as the empty string against every root, without error.
\<close>

theorem empty_passes_through:
  "encode [] dictionary = Inr [] \<and> decode [] root = Inr []"
  by (simp add: encode_def decode_def)

subsection \<open>The empty frequency table\<close>

lemma present_nodes_empty:
  "set frequency_table \<subseteq> {None} \<Longrightarrow> present_nodes frequency_table = []"
  by (induction frequency_table rule: present_nodes.induct) auto

text \<open>
  C4, as the claim states it, fails: on the table of 256 empty entries
  \<open>construct_huffman_tree\<close> raises Python's \<open>IndexError\<close> (from \<open>node_queue[0]\<close>),
  not an error named \<open>EmptyAlphabet\<close>.
\<close>

theorem empty_table_counterexample:
  "construct_huffman_tree (entries []) = Inl IndexError
   \<and> error_name IndexError \<noteq> ''EmptyAlphabet''"
  by code_simp

text \<open>
  C4, amended: when the frequency table holds no symbol entry (every entry is \<open>None\<close>),
  \<open>construct_huffman_tree\<close> fails with an \<open>IndexError\<close>.
\<close>

theorem empty_table_IndexError:
  "set frequency_table \<subseteq> {None} \<Longrightarrow>
   construct_huffman_tree frequency_table = Inl IndexError"
  by (simp add: present_nodes_empty construct_huffman_tree_def huffman_loop.simps)

theorem empty_table_IndexError_witness:
  "set (entries [] :: frequency_table) \<subseteq> {None} \<and>
   construct_huffman_tree (entries []) = Inl IndexError"
  using empty_table_IndexError [of "entries []"]
  by (simp add: entries_def ASCII_MAX_def)

subsection \<open>A symbol without an entry in the dictionary\<close>

lemma encode_loop_missing:
  "c \<in> set string \<Longrightarrow> length dictionary \<le> ord c \<or> dictionary ! ord c = None \<Longrightarrow>
   encode_loop string dictionary out = Inl TypeError \<or>
   encode_loop string dictionary out = Inl IndexError"
  by (induction string arbitrary: out) (auto split: option.splits)

text \<open>
  C5, as the claim states it, fails: encoding \<open>c\<close> against the dictionary built from
  \<open>ab\<close> raises Python's \<open>TypeError\<close> (from \<open>out += None\<close>), not an error named
  \<open>UnknownSymbol\<close>.
\<close>

theorem unknown_symbol_counterexample:
  "dictionary_of ''ab'' = Inr (entries [(CHR ''a'', [False]), (CHR ''b'', [True])])
   \<and> encode ''c'' (entries [(CHR ''a'', [False]), (CHR ''b'', [True])]) = Inl TypeError
   \<and> error_name TypeError \<noteq> ''UnknownSymbol''"
  by code_simp

text \<open>
  C5, amended: for every input string and dictionary, if some input symbol has no entry
  in the dictionary (its entry is \<open>None\<close>, or its code lies beyond the dictionary's
  length), \<open>encode\<close> fails and returns no bit list: with a \<open>TypeError\<close> or an
  \<open>IndexError\<close>.
\<close>

theorem unknown_symbol_fails:
  assumes "c \<in> set string"
    and "length dictionary \<le> ord c \<or> dictionary ! ord c = None"
  shows "encode string dictionary = Inl TypeError \<or> encode string dictionary = Inl IndexError"
  unfolding encode_def using assms by (rule encode_loop_missing)

theorem unknown_symbol_fails_witness:
  "CHR ''c'' \<in> set ''c''
   \<and> (length (entries [(CHR ''a'', [False]), (CHR ''b'', [True])]) \<le> ord CHR ''c'' \<or>
      entries [(CHR ''a'', [False]), (CHR ''b'', [True])] ! ord CHR ''c'' = None)
   \<and> (encode ''c'' (entries [(CHR ''a'', [False]), (CHR ''b'', [True])]) = Inl TypeError \<or>
      encode ''c'' (entries [(CHR ''a'', [False]), (CHR ''b'', [True])]) = Inl IndexError)"
proof -
  let ?d = "entries [(CHR ''a'', [False]), (CHR ''b'', [True])]"
  have 1: "CHR ''c'' \<in> set ''c''" by simp
  have "?d ! ord CHR ''c'' = None" by code_simp
  then have 2: "length ?d \<le> ord CHR ''c'' \<or> ?d ! ord CHR ''c'' = None" by simp
  from unknown_symbol_fails [OF 1 2] 1 2 show ?thesis by blast
qed

subsection \<open>A bit list that ends inside a codeword\<close>

lemma decode_loop_append:
  "decode_loop (xs @ ys) root string curr_node =
     (case decode_loop xs root string curr_node of
        Inl e \<Rightarrow> Inl e
      | Inr (string', curr_node') \<Rightarrow> decode_loop ys root string' curr_node')"
  by (induction xs root string curr_node rule: decode_loop.induct)
     (auto split: option.splits)

lemma decode_loop_partial:
  "partial_codeword curr_node p \<Longrightarrow>
   \<exists>node. decode_loop p root string curr_node = Inr (string, node)"
proof (induction p arbitrary: curr_node)
  case Nil
  then show ?case by simp
next
  case (Cons b p)
  then show ?case by (cases b) (auto split: option.splits)
qed

text \<open>
  C3, as the claim states it, fails: in the tree of \<open>aabbc\<close> the codeword of \<open>c\<close> is
  \<open>[1,0]\<close>; decoding its first bit alone returns the empty string, and decoding the
  codeword of \<open>b\<close> followed by that bit returns \<open>b\<close>: no error is raised.
\<close>

theorem truncated_stream_counterexample:
  "huffman_tree_of ''aabbc'' = Inr (inner 5 (leaf CHR ''b'' 2) (inner 3 (leaf CHR ''c'' 1) (leaf CHR ''a'' 2)))
   \<and> dictionary_of ''aabbc'' =
       Inr (entries [(CHR ''a'', [True, True]), (CHR ''b'', [False]), (CHR ''c'', [True, False])])
   \<and> decode [True] (inner 5 (leaf CHR ''b'' 2) (inner 3 (leaf CHR ''c'' 1) (leaf CHR ''a'' 2))) = Inr []
   \<and> decode [False, True] (inner 5 (leaf CHR ''b'' 2) (inner 3 (leaf CHR ''c'' 1) (leaf CHR ''a'' 2))) = Inr ''b''"
  by code_simp

text \<open>
  C3, amended: for every bit list made of whole codewords followed by the beginning of
  a codeword (the decoder is back at the root after the whole codewords, and the
  remaining bits lead from the root through existing nodes without a value), \<open>decode\<close>
  does not fail: it returns the symbols of the whole codewords and drops the rest.
\<close>

theorem truncated_stream_silent:
  assumes "decode_loop bit_list root [] root = Inr (string, root)"
    and "partial_codeword root p"
  shows "decode (bit_list @ p) root = Inr string"
  using assms decode_loop_partial [of root p root string]
  by (auto simp: decode_def decode_loop_append)

theorem truncated_stream_silent_witness:
  "decode_loop [False] (inner 5 (leaf CHR ''b'' 2) (inner 3 (leaf CHR ''c'' 1) (leaf CHR ''a'' 2))) []
       (inner 5 (leaf CHR ''b'' 2) (inner 3 (leaf CHR ''c'' 1) (leaf CHR ''a'' 2)))
     = Inr (''b'', inner 5 (leaf CHR ''b'' 2) (inner 3 (leaf CHR ''c'' 1) (leaf CHR ''a'' 2)))
   \<and> partial_codeword (inner 5 (leaf CHR ''b'' 2) (inner 3 (leaf CHR ''c'' 1) (leaf CHR ''a'' 2))) [True]
   \<and> decode ([False] @ [True]) (inner 5 (leaf CHR ''b'' 2) (inner 3 (leaf CHR ''c'' 1) (leaf CHR ''a'' 2))) = Inr ''b''"
  using truncated_stream_silent [of "[False]" "inner 5 (leaf CHR ''b'' 2) (inner 3 (leaf CHR ''c'' 1) (leaf CHR ''a'' 2))" "''b''" "[True]"]
  by simp

subsection \<open>An input of one distinct symbol\<close>

text \<open>
  C2 fails on the code: on \<open>aaaa\<close> the frequency table has the one entry of \<open>a\<close>, the
  loop of \<open>construct_huffman_tree\<close> is not entered, and \<open>node_queue[0]\<close> raises
  \<open>IndexError\<close> on the empty node queue while the leaf stays in \<open>queue\<close>. Given the
  lone leaf itself as the root, \<open>construct_dict\<close> stores the empty codeword for \<open>a\<close>.
\<close>

theorem single_symbol_IndexError:
  "construct_frequency_table ''aaaa'' = Inr (entries [(CHR ''a'', leaf CHR ''a'' 4)])
   \<and> construct_huffman_tree (entries [(CHR ''a'', leaf CHR ''a'' 4)]) = Inl IndexError
   \<and> construct_dict (Some (leaf CHR ''a'' 4)) None None = Inr (entries [(CHR ''a'', [])])"
  by code_simp

text \<open>
  C1 fails on the code at every input of one distinct symbol: on \<open>zz\<close> neither a tree
  nor a dictionary is built, so there is nothing to encode or decode with.
\<close>

theorem single_symbol_roundtrip_fails:
  "huffman_tree_of ''zz'' = Inl IndexError \<and> dictionary_of ''zz'' = Inl IndexError"
  by code_simp

section \<open>The rounds of tree construction\<close>

text \<open>
  The sort that fills \<open>queue\<close> is stable: nodes of equal weight stand in \<open>queue\<close> in the
  order of the frequency table.
\<close>

lemma initial_queue_stable:
  "filter (\<lambda>node. freq node = k) (sort_key freq (present_nodes frequency_table)) =
   filter (\<lambda>node. freq node = k) (present_nodes frequency_table)"
  by (rule sort_key_stable)

lemma sorted_hd_le:
  "sorted (map freq xs) \<Longrightarrow> x \<in> set xs \<Longrightarrow> freq (hd xs) \<le> freq x"
  by (cases xs) auto

lemma popmin_sorted:
  assumes "sorted (map freq list1)" "sorted (map freq list2)" "0 < length list1 + length list2"
  shows "\<exists>m list1' list2'. popmin list1 list2 = Inr (m, list1', list2') \<and>
     takes_earliest_min (list1 @ list2) m (list1' @ list2') \<and>
     m \<in> set list1 \<union> set list2 \<and>
     (list1' = list1 \<and> list2' = tl list2 \<or> list1' = tl list1 \<and> list2' = list2) \<and>
     (\<forall>x \<in> set list1 \<union> set list2. freq m \<le> freq x)"
proof (cases "list1 = [] \<or> (list2 \<noteq> [] \<and> freq (hd list2) < freq (hd list1))")
  case True
  with assms(3) have ne: "list2 \<noteq> []" by auto
  have pm: "popmin list1 list2 = Inr (hd list2, list1, tl list2)"
    using True assms(3) by simp
  have lt: "freq (hd list2) < freq x" if "x \<in> set list1" for x
  proof -
    from that True have "freq (hd list2) < freq (hd list1)" by auto
    also have "\<dots> \<le> freq x" using that assms(1) by (rule sorted_hd_le[rotated])
    finally show ?thesis .
  qed
  have le: "freq (hd list2) \<le> freq x" if "x \<in> set list1 \<union> set list2" for x
    using that lt[of x] sorted_hd_le[OF assms(2), of x] by auto
  have "takes_earliest_min (list1 @ list2) (hd list2) (list1 @ tl list2)"
    unfolding takes_earliest_min_def
  proof (intro exI[of _ "length list1"] conjI allI impI)
    show "length list1 < length (list1 @ list2)" using ne by simp
    show "hd list2 = (list1 @ list2) ! length list1" using ne by (simp add: hd_conv_nth nth_append)
    show "list1 @ tl list2 = take (length list1) (list1 @ list2) @ drop (Suc (length list1)) (list1 @ list2)"
      by (simp add: drop_Suc)
    show "freq (hd list2) \<le> freq ((list1 @ list2) ! k)" if "k < length (list1 @ list2)" for k
      using le[of "(list1 @ list2) ! k"] that nth_mem[OF that] by simp
    show "freq (hd list2) < freq ((list1 @ list2) ! k)" if "k < length list1" for k
      using lt[of "list1 ! k"] that by (simp add: nth_append)
  qed
  with pm ne le show ?thesis by auto
next
  case False
  then have ne: "list1 \<noteq> []" and ge: "list2 \<noteq> [] \<Longrightarrow> freq (hd list1) \<le> freq (hd list2)"
    by auto
  have pm: "popmin list1 list2 = Inr (hd list1, tl list1, list2)"
    using False assms(3) by auto
  have le: "freq (hd list1) \<le> freq x" if "x \<in> set list1 \<union> set list2" for x
  proof (cases "x \<in> set list1")
    case True
    then show ?thesis using assms(1) sorted_hd_le by blast
  next
    case False
    with that have x: "x \<in> set list2" by simp
    then have "list2 \<noteq> []" by auto
    from ge[OF this] sorted_hd_le[OF assms(2) x] show ?thesis by simp
  qed
  have "takes_earliest_min (list1 @ list2) (hd list1) (tl list1 @ list2)"
    unfolding takes_earliest_min_def
  proof (intro exI[of _ "0"] conjI allI impI)
    show "0 < length (list1 @ list2)" using ne by simp
    show "hd list1 = (list1 @ list2) ! 0" using ne by (simp add: hd_conv_nth nth_append)
    show "tl list1 @ list2 = take 0 (list1 @ list2) @ drop (Suc 0) (list1 @ list2)"
      using ne by (cases list1) auto
    show "freq (hd list1) \<le> freq ((list1 @ list2) ! k)" if "k < length (list1 @ list2)" for k
      using le[of "(list1 @ list2) ! k"] nth_mem[OF that] by simp
  qed simp
  with pm ne le show ?thesis by auto
qed

lemma popmin_sorted_shape:
  assumes "sorted (map freq list1)" "sorted (map freq list2)" "0 < length list1 + length list2"
  shows "\<exists>m list1' list2'. popmin list1 list2 = Inr (m, list1', list2') \<and>
     takes_earliest_min (list1 @ list2) m (list1' @ list2') \<and>
     (list1' = list1 \<and> list2 = m # list2' \<or> list1 = m # list1' \<and> list2' = list2) \<and>
     (\<forall>x \<in> set list1 \<union> set list2. freq m \<le> freq x)"
proof -
  from popmin_sorted[OF assms] obtain m list1' list2' where
    *: "popmin list1 list2 = Inr (m, list1', list2')"
    "takes_earliest_min (list1 @ list2) m (list1' @ list2')"
    "\<forall>x \<in> set list1 \<union> set list2. freq m \<le> freq x" by blast
  from *(1) have "list1' = list1 \<and> list2 = m # list2' \<or> list1 = m # list1' \<and> list2' = list2"
    by (cases list1; cases list2) (auto split: if_splits)
  with * show ?thesis by blast
qed

lemma huffman_round_inv:
  assumes inv: "queues_inv queue node_queue"
    and len: "length queue + length node_queue > 1"
  shows "\<exists>first second queue1 node_queue1 queue2 node_queue2.
     takes_earliest_min (queue @ node_queue) first (queue1 @ node_queue1) \<and>
     takes_earliest_min (queue1 @ node_queue1) second (queue2 @ node_queue2) \<and>
     huffman_round queue node_queue =
       Inr (queue2, node_queue2 @
              [HuffmanNode None (freq first + freq second) (Some first) (Some second)]) \<and>
     queues_inv queue2 (node_queue2 @
              [HuffmanNode None (freq first + freq second) (Some first) (Some second)])"
proof -
  from inv have s1: "sorted (map freq queue)" and s2: "sorted (map freq node_queue)"
    unfolding queues_inv_def by auto
  from len have "0 < length queue + length node_queue" by linarith
  from popmin_sorted_shape[OF s1 s2 this] obtain a queue1 node_queue1 where
    pa: "popmin queue node_queue = Inr (a, queue1, node_queue1)"
    and ta: "takes_earliest_min (queue @ node_queue) a (queue1 @ node_queue1)"
    and sh1: "queue1 = queue \<and> node_queue = a # node_queue1 \<or>
              queue = a # queue1 \<and> node_queue1 = node_queue"
    and amin: "\<forall>x \<in> set queue \<union> set node_queue. freq a \<le> freq x"
    by blast
  from sh1 s1 s2 have s1': "sorted (map freq queue1)" and s2': "sorted (map freq node_queue1)"
    by auto
  from popmin_length[OF pa] len have "0 < length queue1 + length node_queue1" by linarith
  from popmin_sorted_shape[OF s1' s2' this] obtain b queue2 node_queue2 where
    pb: "popmin queue1 node_queue1 = Inr (b, queue2, node_queue2)"
    and tb: "takes_earliest_min (queue1 @ node_queue1) b (queue2 @ node_queue2)"
    and sh2: "queue2 = queue1 \<and> node_queue1 = b # node_queue2 \<or>
              queue1 = b # queue2 \<and> node_queue2 = node_queue1"
    and bmin: "\<forall>x \<in> set queue1 \<union> set node_queue1. freq b \<le> freq x"
    by blast
  from sh2 s1' s2' have s1'': "sorted (map freq queue2)" and s2'': "sorted (map freq node_queue2)"
    by auto
  let ?n = "HuffmanNode None (freq a + freq b) (Some a) (Some b)"
  have hr: "huffman_round queue node_queue = Inr (queue2, node_queue2 @ [?n])"
    unfolding huffman_round_def using pa pb by (simp del: popmin.simps)
  have ain: "a \<in> set queue \<union> set node_queue" using sh1 by auto
  have sub1: "set queue1 \<union> set node_queue1 \<subseteq> set queue \<union> set node_queue"
    "set node_queue1 \<subseteq> set node_queue" using sh1 by auto
  have bin1: "b \<in> set queue1 \<union> set node_queue1" using sh2 by auto
  with sub1 have bin: "b \<in> set queue \<union> set node_queue" by auto
  have sub2: "set queue2 \<union> set node_queue2 \<subseteq> set queue1 \<union> set node_queue1"
    "set node_queue2 \<subseteq> set node_queue1" using sh2 by auto
  have ab: "freq a \<le> freq b" using amin bin by blast
  have rest: "x \<in> set queue \<union> set node_queue \<and> freq b \<le> freq x"
    if "x \<in> set queue2 \<union> set node_queue2" for x
    using that sub1 sub2 bmin by blast
  consider (A) "\<forall>x \<in> set queue \<union> set node_queue. 0 \<le> freq x \<and>
         (\<forall>y \<in> set node_queue. freq y \<le> 2 * freq x)"
    | (B) "length node_queue \<le> 1"
          "\<forall>x \<in> set queue. \<forall>y \<in> set node_queue. freq y < freq x"
    using inv unfolding queues_inv_def by blast
  then have "queues_inv queue2 (node_queue2 @ [?n])"
  proof cases
    case A
    then have nn: "\<And>x. x \<in> set queue \<union> set node_queue \<Longrightarrow> 0 \<le> freq x"
      and J: "\<And>x y. x \<in> set queue \<union> set node_queue \<Longrightarrow> y \<in> set node_queue \<Longrightarrow>
                freq y \<le> 2 * freq x"
      by auto
    have a0: "0 \<le> freq a" using nn[OF ain] .
    have b0: "0 \<le> freq b" using nn[OF bin] .
    have old: "y \<in> set node_queue \<and> freq y \<le> freq a + freq b"
      if "y \<in> set node_queue2" for y
    proof -
      from that sub1 sub2 have y: "y \<in> set node_queue" by auto
      from J[OF ain y] ab show ?thesis using y by simp
    qed
    have "sorted (map freq (node_queue2 @ [?n]))"
      using s2'' old by (auto simp: sorted_append)
    moreover have "0 \<le> freq x \<and> (\<forall>y \<in> set (node_queue2 @ [?n]). freq y \<le> 2 * freq x)"
      if "x \<in> set queue2 \<union> set (node_queue2 @ [?n])" for x
    proof (cases "x \<in> set queue2 \<union> set node_queue2")
      case True
      from rest[OF True] have xin: "x \<in> set queue \<union> set node_queue" and bx: "freq b \<le> freq x"
        by auto
      have "freq y \<le> 2 * freq x" if "y \<in> set node_queue2" for y
        using J[OF xin] old[OF that] by simp
      moreover have "freq ?n \<le> 2 * freq x" using ab bx by simp
      ultimately show ?thesis using nn[OF xin] by auto
    next
      case False
      with that have "x = ?n" by auto
      then show ?thesis using a0 b0 old by fastforce
    qed
    then have "\<forall>x \<in> set queue2 \<union> set (node_queue2 @ [?n]). 0 \<le> freq x \<and>
        (\<forall>y \<in> set (node_queue2 @ [?n]). freq y \<le> 2 * freq x)" by blast
    ultimately show ?thesis unfolding queues_inv_def using s1'' by blast
  next
    case B
    have nq1: "node_queue1 = []"
    proof (cases node_queue)
      case Nil
      with sh1 show ?thesis by auto
    next
      case (Cons y0 ys)
      with B(1) have nq: "node_queue = [y0]" by simp
      show ?thesis
      proof (rule ccontr)
        assume "node_queue1 \<noteq> []"
        with sh1 nq have "queue = a # queue1" by auto
        then have "a \<in> set queue" by simp
        with B(2) nq have "freq y0 < freq a" by simp
        moreover from amin nq have "freq a \<le> freq y0" by simp
        ultimately show False by simp
      qed
    qed
    with sh2 have nq2: "node_queue2 = []" and q1: "queue1 = b # queue2" by auto
    have bx: "freq b \<le> freq x" if "x \<in> set queue2" for x
      using rest[of x] that by simp
    show ?thesis
    proof (cases "0 \<le> freq a")
      case True
      have "0 \<le> freq x \<and> freq ?n \<le> 2 * freq x" if "x \<in> set queue2" for x
        using bx[OF that] ab True by simp
      moreover have "0 \<le> freq ?n \<and> freq ?n \<le> 2 * freq ?n" using ab True by simp
      ultimately show ?thesis
        unfolding queues_inv_def nq2 using s1'' by auto
    next
      case False
      then have "freq ?n < freq x" if "x \<in> set queue2" for x
        using bx[OF that] by simp
      then show ?thesis
        unfolding queues_inv_def nq2 using s1'' by auto
    qed
  qed
  with ta tb hr show ?thesis by blast
qed

lemma loop_state_inv:
  assumes "loop_state frequency_table queue node_queue"
  shows "queues_inv queue node_queue"
  using assms
proof (induction rule: loop_state.induct)
  case initial
  then show ?case by (simp add: queues_inv_def)
next
  case (round queue node_queue queue' node_queue')
  from huffman_round_inv[OF round.IH round.hyps(2)] round.hyps(3) show ?case by auto
qed

text \<open>
  The loop of the builder passes through every state of \<open>loop_state\<close>: started on the
  sorted entries of the table, it computes what it computes from that state on.
\<close>

lemma loop_state_huffman_loop:
  "loop_state frequency_table queue node_queue \<Longrightarrow>
   huffman_loop (sort_key freq (present_nodes frequency_table)) [] =
   huffman_loop queue node_queue"
proof (induction rule: loop_state.induct)
  case initial
  show ?case by simp
next
  case (round queue node_queue queue' node_queue')
  have "huffman_loop queue node_queue = huffman_loop queue' node_queue'"
    using round.hyps(2,3) by (subst huffman_loop.simps) simp
  with round.IH show ?case by simp
qed

text \<open>
  C7: in every round of tree construction, on any frequency table, the two nodes
  removed are each the pending node of smallest weight at the time, the earliest
  inserted one among equal weights; the first removed becomes the left child and the
  second the right child of the new internal node, whose weight is the sum of the two
  and which is inserted last. The round is a round of the builder: the loop of
  \<open>construct_huffman_tree\<close> on the table reaches the state before the round, goes on
  from the state after it, and the builder returns the first node of what the loop
  returns from there.
\<close>

theorem round_takes_two_smallest:
  assumes "loop_state frequency_table queue node_queue"
    and "length queue + length node_queue > 1"
  shows "\<exists>first second queue1 node_queue1 queue2 node_queue2.
     takes_earliest_min (queue @ node_queue) first (queue1 @ node_queue1) \<and>
     takes_earliest_min (queue1 @ node_queue1) second (queue2 @ node_queue2) \<and>
     huffman_round queue node_queue =
       Inr (queue2, node_queue2 @
              [HuffmanNode None (freq first + freq second) (Some first) (Some second)]) \<and>
     huffman_loop (sort_key freq (present_nodes frequency_table)) [] =
       huffman_loop queue node_queue \<and>
     huffman_loop queue node_queue =
       huffman_loop queue2
         (node_queue2 @
            [HuffmanNode None (freq first + freq second) (Some first) (Some second)]) \<and>
     construct_huffman_tree frequency_table =
       (case huffman_loop queue2
               (node_queue2 @
                  [HuffmanNode None (freq first + freq second) (Some first) (Some second)]) of
          Inl e \<Rightarrow> Inl e
        | Inr (queue', node_queue') \<Rightarrow>
            (case node_queue' of [] \<Rightarrow> Inl IndexError | node # _ \<Rightarrow> Inr node))"
proof -
  from huffman_round_inv[OF loop_state_inv[OF assms(1)] assms(2)]
  obtain first second queue1 node_queue1 queue2 node_queue2 where
    t1: "takes_earliest_min (queue @ node_queue) first (queue1 @ node_queue1)"
    and t2: "takes_earliest_min (queue1 @ node_queue1) second (queue2 @ node_queue2)"
    and r: "huffman_round queue node_queue =
       Inr (queue2, node_queue2 @
              [HuffmanNode None (freq first + freq second) (Some first) (Some second)])"
    by blast
  let ?nq = "node_queue2 @
      [HuffmanNode None (freq first + freq second) (Some first) (Some second)]"
  note link = loop_state_huffman_loop[OF assms(1)]
  have step: "huffman_loop queue node_queue = huffman_loop queue2 ?nq"
    using assms(2) r by (subst huffman_loop.simps) simp
  have "construct_huffman_tree frequency_table =
       (case huffman_loop queue2 ?nq of
          Inl e \<Rightarrow> Inl e
        | Inr (queue', node_queue') \<Rightarrow>
            (case node_queue' of [] \<Rightarrow> Inl IndexError | node # _ \<Rightarrow> Inr node))"
    unfolding construct_huffman_tree_def link step ..
  with t1 t2 r link step show ?thesis by blast
qed

text \<open>
  The witness is the second round on \<open>abcc\<close>: the leaf of \<open>c\<close> and the internal node
  over \<open>a\<close> and \<open>b\<close> both weigh 2, and the leaf, inserted earlier, is removed first.
\<close>

lemma abcc_state:
  "loop_state (entries [(CHR ''a'', leaf CHR ''a'' 1), (CHR ''b'', leaf CHR ''b'' 1),
              (CHR ''c'', leaf CHR ''c'' 2)])
     [leaf CHR ''c'' 2] [inner 2 (leaf CHR ''a'' 1) (leaf CHR ''b'' 1)]"
proof -
  let ?ft = "entries [(CHR ''a'', leaf CHR ''a'' 1), (CHR ''b'', leaf CHR ''b'' 1),
              (CHR ''c'', leaf CHR ''c'' 2)]"
  have "1 < length (sort_key freq (present_nodes ?ft)) + length ([] :: HuffmanNode list)"
    by code_simp
  moreover have "huffman_round (sort_key freq (present_nodes ?ft)) [] =
      Inr ([leaf CHR ''c'' 2], [inner 2 (leaf CHR ''a'' 1) (leaf CHR ''b'' 1)])"
    by code_simp
  ultimately show ?thesis
    using loop_state.round [OF loop_state.initial] by blast
qed

theorem round_takes_two_smallest_witness:
  "construct_frequency_table ''abcc'' =
     Inr (entries [(CHR ''a'', leaf CHR ''a'' 1), (CHR ''b'', leaf CHR ''b'' 1),
              (CHR ''c'', leaf CHR ''c'' 2)])
   \<and> loop_state (entries [(CHR ''a'', leaf CHR ''a'' 1), (CHR ''b'', leaf CHR ''b'' 1),
              (CHR ''c'', leaf CHR ''c'' 2)])
       [leaf CHR ''c'' 2] [inner 2 (leaf CHR ''a'' 1) (leaf CHR ''b'' 1)]
   \<and> 1 < length [leaf CHR ''c'' 2] + length [inner 2 (leaf CHR ''a'' 1) (leaf CHR ''b'' 1)]
   \<and> (\<exists>first second queue1 node_queue1 queue2 node_queue2.
        takes_earliest_min ([leaf CHR ''c'' 2] @ [inner 2 (leaf CHR ''a'' 1) (leaf CHR ''b'' 1)]) first
          (queue1 @ node_queue1) \<and>
        takes_earliest_min (queue1 @ node_queue1) second (queue2 @ node_queue2) \<and>
        huffman_round [leaf CHR ''c'' 2] [inner 2 (leaf CHR ''a'' 1) (leaf CHR ''b'' 1)] =
          Inr (queue2, node_queue2 @ [inner (freq first + freq second) first second]) \<and>
        huffman_loop (sort_key freq (present_nodes (entries [(CHR ''a'', leaf CHR ''a'' 1), (CHR ''b'', leaf CHR ''b'' 1),
              (CHR ''c'', leaf CHR ''c'' 2)]))) [] =
          huffman_loop [leaf CHR ''c'' 2] [inner 2 (leaf CHR ''a'' 1) (leaf CHR ''b'' 1)] \<and>
        huffman_loop [leaf CHR ''c'' 2] [inner 2 (leaf CHR ''a'' 1) (leaf CHR ''b'' 1)] =
          huffman_loop queue2 (node_queue2 @ [inner (freq first + freq second) first second]) \<and>
        construct_huffman_tree (entries [(CHR ''a'', leaf CHR ''a'' 1), (CHR ''b'', leaf CHR ''b'' 1),
              (CHR ''c'', leaf CHR ''c'' 2)]) =
          (case huffman_loop queue2
                  (node_queue2 @ [inner (freq first + freq second) first second]) of
             Inl e \<Rightarrow> Inl e
           | Inr (queue', node_queue') \<Rightarrow>
               (case node_queue' of [] \<Rightarrow> Inl IndexError | node # _ \<Rightarrow> Inr node)))
   \<and> huffman_round [leaf CHR ''c'' 2] [inner 2 (leaf CHR ''a'' 1) (leaf CHR ''b'' 1)] =
       Inr ([], [inner 4 (leaf CHR ''c'' 2) (inner 2 (leaf CHR ''a'' 1) (leaf CHR ''b'' 1))])
   \<and> construct_huffman_tree (entries [(CHR ''a'', leaf CHR ''a'' 1), (CHR ''b'', leaf CHR ''b'' 1),
              (CHR ''c'', leaf CHR ''c'' 2)]) =
       Inr (inner 4 (leaf CHR ''c'' 2) (inner 2 (leaf CHR ''a'' 1) (leaf CHR ''b'' 1)))"
proof -
  have 1: "construct_frequency_table ''abcc'' =
     Inr (entries [(CHR ''a'', leaf CHR ''a'' 1), (CHR ''b'', leaf CHR ''b'' 1),
              (CHR ''c'', leaf CHR ''c'' 2)])"
    by code_simp
  have 2: "1 < length [leaf CHR ''c'' 2] + length [inner 2 (leaf CHR ''a'' 1) (leaf CHR ''b'' 1)]"
    by simp
  have 3: "huffman_round [leaf CHR ''c'' 2] [inner 2 (leaf CHR ''a'' 1) (leaf CHR ''b'' 1)] =
       Inr ([], [inner 4 (leaf CHR ''c'' 2) (inner 2 (leaf CHR ''a'' 1) (leaf CHR ''b'' 1))])"
    by code_simp
  have 4: "construct_huffman_tree (entries [(CHR ''a'', leaf CHR ''a'' 1), (CHR ''b'', leaf CHR ''b'' 1),
              (CHR ''c'', leaf CHR ''c'' 2)]) =
       Inr (inner 4 (leaf CHR ''c'' 2) (inner 2 (leaf CHR ''a'' 1) (leaf CHR ''b'' 1)))"
    by code_simp
  from round_takes_two_smallest [OF abcc_state 2] 1 2 3 4 abcc_state
  show ?thesis by blast
qed

section \<open>Code trees\<close>

lemma freq_conc [simp]: "freq (conc w t) = weight w t"
  by (cases t) simp_all

lemma leaves_nonempty [simp]: "leaves t \<noteq> []"
  by (induction t) auto

lemma store_all_append [simp]: "store_all (xs @ ys) d = store_all ys (store_all xs d)"
  by (induction xs arbitrary: d) auto

lemma length_store_all [simp]: "length (store_all xs d) = length d"
  by (induction xs arbitrary: d) auto

lemma map_fst_codes [simp]: "map fst (codes t p) = leaves t"
  by (induction t arbitrary: p) auto

lemma construct_dict_None:
  "length d = ASCII_MAX \<Longrightarrow> p \<noteq> [] \<Longrightarrow> construct_dict None (Some d) (Some p) = Inr d"
  by (subst construct_dict.simps) (auto simp: ASCII_MAX_def)

lemma construct_dict_conc:
  "length d = ASCII_MAX \<Longrightarrow> p \<noteq> [] \<Longrightarrow>
   construct_dict (Some (conc w t)) (Some d) (Some p) = Inr (store_all (codes t p) d)"
proof (induction t arbitrary: d p)
  case (Leaf c)
  have "d \<noteq> []" using Leaf by (auto simp: ASCII_MAX_def)
  then show ?case using Leaf ord_less[of c]
    by (subst construct_dict.simps) (simp add: store_prefix_def construct_dict_None)
next
  case (Fork l r)
  have "d \<noteq> []" using Fork.prems by (auto simp: ASCII_MAX_def)
  then show ?case using Fork
    by (subst construct_dict.simps) simp
qed

lemma construct_dict_root:
  "construct_dict (Some (conc w (Fork l r))) None None =
     Inr (store_all (codes (Fork l r) []) (replicate ASCII_MAX None))"
  by (subst construct_dict.simps) (simp add: construct_dict_conc)

lemma ord_eq_iff [simp]: "ord a = ord b \<longleftrightarrow> a = b"
  by (simp add: ord_def)

lemma store_all_other:
  "c \<notin> fst ` set xs \<Longrightarrow> store_all xs d ! ord c = d ! ord c"
  by (induction xs arbitrary: d) (auto simp: nth_list_update)

lemma store_all_lookup:
  "distinct (map fst xs) \<Longrightarrow> (c, p) \<in> set xs \<Longrightarrow> ord c < length d \<Longrightarrow>
   store_all xs d ! ord c = Some p"
proof (induction xs arbitrary: d)
  case Nil
  then show ?case by simp
next
  case (Cons x xs)
  obtain a q where x: "x = (a, q)" by (cases x)
  show ?case
  proof (cases "(c, p) = x")
    case True
    with Cons.prems x have "c \<notin> fst ` set xs" by auto
    then show ?thesis using True x Cons.prems(3) by (simp add: store_all_other)
  next
    case False
    with Cons x show ?thesis by auto
  qed
qed

lemma codes_path: "c \<in> set (leaves t) \<Longrightarrow> (c, p @ path t c) \<in> set (codes t p)"
proof (induction t arbitrary: p)
  case (Leaf x)
  then show ?case by simp
next
  case (Fork l r)
  show ?case
  proof (cases "c \<in> set (leaves l)")
    case True
    from Fork.IH(1)[OF True, of "p @ [False]"] True show ?thesis by simp
  next
    case False
    with Fork.prems have "c \<in> set (leaves r)" by simp
    from Fork.IH(2)[OF this, of "p @ [True]"] False show ?thesis by simp
  qed
qed

lemma dict_lookup:
  assumes "distinct (leaves t)" and "length d = ASCII_MAX"
  shows "store_all (codes t p) d ! ord c =
           (if c \<in> set (leaves t) then Some (p @ path t c) else d ! ord c)"
proof (cases "c \<in> set (leaves t)")
  case True
  from assms(1) have "distinct (map fst (codes t p))" by simp
  from store_all_lookup[OF this codes_path[OF True]] ord_less[of c] assms(2) True
  show ?thesis by simp
next
  case False
  then have "c \<notin> fst ` set (codes t p)"
    using map_fst_codes[of t p] by (metis set_map)
  then show ?thesis using False by (simp add: store_all_other)
qed

lemma path_prefix_free:
  "distinct (leaves t) \<Longrightarrow> a \<in> set (leaves t) \<Longrightarrow> b \<in> set (leaves t) \<Longrightarrow> a \<noteq> b \<Longrightarrow>
   \<not> prefix (path t a) (path t b)"
  by (induction t) auto

lemma encode_loop_known:
  "\<forall>c \<in> set string. ord c < length d \<and> d ! ord c = Some (f c) \<Longrightarrow>
   encode_loop string d out = Inr (out @ concat (map f string))"
  by (induction string arbitrary: out) auto

lemma decode_loop_path:
  "c \<in> set (leaves (Fork l r)) \<Longrightarrow>
   decode_loop (path (Fork l r) c @ rest) root string (conc w (Fork l r)) =
   decode_loop rest root (string @ [c]) root"
proof (induction "Fork l r" arbitrary: l r)
  case (Fork l r)
  show ?case
  proof (cases "c \<in> set (leaves l)")
    case True
    then show ?thesis using Fork.hyps(1) by (cases l) auto
  next
    case False
    with Fork.prems have "c \<in> set (leaves r)" by simp
    then show ?thesis using False Fork.hyps(2) by (cases r) auto
  qed
qed

lemma decode_loop_concat:
  "set string' \<subseteq> set (leaves (Fork l r)) \<Longrightarrow>
   decode_loop (concat (map (path (Fork l r)) string')) (conc w (Fork l r)) string
     (conc w (Fork l r)) = Inr (string @ string', conc w (Fork l r))"
proof (induction string' arbitrary: string)
  case Nil
  then show ?case by simp
next
  case (Cons c cs)
  then have "c \<in> set (leaves (Fork l r))" by simp
  from decode_loop_path[OF this] Cons show ?case by simp
qed

section \<open>Tree construction on code trees\<close>

lemma tree_popmin_length:
  "0 < length list1 + length list2 \<Longrightarrow> tree_popmin w list1 list2 = (x, q, nq) \<Longrightarrow>
   Suc (length q + length nq) = length list1 + length list2"
  by (auto simp: tree_popmin_def split: if_splits)

lemma tree_round_length:
  assumes "1 < length queue + length node_queue"
    and "tree_round w queue node_queue = (queue', node_queue')"
  shows "Suc (length queue' + length node_queue') = length queue + length node_queue"
    and "node_queue' \<noteq> []"
proof -
  obtain a q1 nq1 where a: "tree_popmin w queue node_queue = (a, q1, nq1)"
    by (cases "tree_popmin w queue node_queue")
  obtain b q2 nq2 where b: "tree_popmin w q1 nq1 = (b, q2, nq2)"
    by (cases "tree_popmin w q1 nq1")
  from assms(1) have "0 < length queue + length node_queue" by linarith
  from tree_popmin_length[OF this a] have 1: "Suc (length q1 + length nq1) = length queue + length node_queue" .
  with assms(1) have "0 < length q1 + length nq1" by linarith
  from tree_popmin_length[OF this b] have 2: "Suc (length q2 + length nq2) = length q1 + length nq1" .
  from assms(2) a b have eq: "queue' = q2" "node_queue' = nq2 @ [Fork a b]"
    by (simp_all add: tree_round_def)
  with 1 2 show "Suc (length queue' + length node_queue') = length queue + length node_queue"
    by simp
  from eq show "node_queue' \<noteq> []" by simp
qed

lemma popmin_conc:
  assumes "0 < length list1 + length list2"
    and "tree_popmin w list1 list2 = (x, list1', list2')"
  shows "popmin (map (conc w) list1) (map (conc w) list2) =
           Inr (conc w x, map (conc w) list1', map (conc w) list2')"
  using assms by (auto simp: tree_popmin_def hd_map map_tl split: if_splits)

lemma huffman_round_conc:
  assumes "1 < length queue + length node_queue"
    and "tree_round w queue node_queue = (queue', node_queue')"
  shows "huffman_round (map (conc w) queue) (map (conc w) node_queue) =
           Inr (map (conc w) queue', map (conc w) node_queue')"
proof -
  obtain a q1 nq1 where a: "tree_popmin w queue node_queue = (a, q1, nq1)"
    by (cases "tree_popmin w queue node_queue")
  obtain b q2 nq2 where b: "tree_popmin w q1 nq1 = (b, q2, nq2)"
    by (cases "tree_popmin w q1 nq1")
  from assms(1) have 0: "0 < length queue + length node_queue" by linarith
  from tree_popmin_length[OF this a] assms(1) have 1: "0 < length q1 + length nq1" by linarith
  from assms(2) a b have eq: "queue' = q2" "node_queue' = nq2 @ [Fork a b]"
    by (simp_all add: tree_round_def)
  show ?thesis
    unfolding huffman_round_def popmin_conc[OF 0 a] using popmin_conc[OF 1 b] eq
    by (simp del: popmin.simps)
qed

lemma huffman_loop_conc:
  "tree_loop w queue node_queue = (queue', node_queue') \<Longrightarrow>
   huffman_loop (map (conc w) queue) (map (conc w) node_queue) =
     Inr (map (conc w) queue', map (conc w) node_queue')"
proof (induction w queue node_queue rule: tree_loop.induct)
  case (1 w queue node_queue)
  show ?case
  proof (cases "1 < length queue + length node_queue")
    case True
    obtain q1 nq1 where r: "tree_round w queue node_queue = (q1, nq1)"
      by (cases "tree_round w queue node_queue")
    from "1.prems" True r have "tree_loop w q1 nq1 = (queue', node_queue')"
      by (simp add: tree_loop.simps[of w queue node_queue])
    from "1.IH"[OF True r[symmetric] this] huffman_round_conc[OF True r] True
    show ?thesis by (simp add: huffman_loop.simps[of "map (conc w) queue"])
  next
    case False
    with "1.prems" have "queue' = queue" "node_queue' = node_queue"
      by (simp_all add: tree_loop.simps[of w queue node_queue])
    with False show ?thesis
      by (subst huffman_loop.simps) simp
  qed
qed

lemma tree_popmin_leaves:
  "0 < length list1 + length list2 \<Longrightarrow> tree_popmin w list1 list2 = (x, q, nq) \<Longrightarrow>
   forest_leaves list1 list2 = mset (leaves x) + forest_leaves q nq"
  by (cases list1; cases list2) (auto simp: tree_popmin_def forest_leaves_def split: if_splits)

lemma tree_round_leaves:
  assumes "1 < length queue + length node_queue"
    and "tree_round w queue node_queue = (queue', node_queue')"
  shows "forest_leaves queue' node_queue' = forest_leaves queue node_queue"
proof -
  obtain a q1 nq1 where a: "tree_popmin w queue node_queue = (a, q1, nq1)"
    by (cases "tree_popmin w queue node_queue")
  obtain b q2 nq2 where b: "tree_popmin w q1 nq1 = (b, q2, nq2)"
    by (cases "tree_popmin w q1 nq1")
  from assms(1) have 0: "0 < length queue + length node_queue" by linarith
  from tree_popmin_length[OF this a] assms(1) have 1: "0 < length q1 + length nq1" by linarith
  from assms(2) a b have eq: "queue' = q2" "node_queue' = nq2 @ [Fork a b]"
    by (simp_all add: tree_round_def)
  from tree_popmin_leaves[OF 0 a] tree_popmin_leaves[OF 1 b] eq show ?thesis
    by (simp add: forest_leaves_def)
qed

lemma tree_loop_result:
  assumes "1 < length queue + length node_queue"
  shows "\<exists>t. tree_loop w queue node_queue = ([], [t]) \<and>
             mset (leaves t) = forest_leaves queue node_queue"
  using assms
proof (induction w queue node_queue rule: tree_loop.induct)
  case (1 w queue node_queue)
  obtain q1 nq1 where r: "tree_round w queue node_queue = (q1, nq1)"
    by (cases "tree_round w queue node_queue")
  note len = tree_round_length[OF "1.prems" r]
  note lv = tree_round_leaves[OF "1.prems" r]
  have unf: "tree_loop w queue node_queue = tree_loop w q1 nq1"
    using "1.prems" r by (simp add: tree_loop.simps[of w queue node_queue])
  show ?case
  proof (cases "1 < length q1 + length nq1")
    case True
    from "1.IH"[OF "1.prems" r[symmetric] True] unf lv show ?thesis by simp
  next
    case False
    with len "1.prems" have "length q1 + length nq1 = 1" by linarith
    with len(2) obtain t where t: "q1 = []" "nq1 = [t]"
      by (cases nq1; cases q1) auto
    then have "tree_loop w q1 nq1 = ([], [t])" by (simp add: tree_loop.simps)
    moreover from lv t have "mset (leaves t) = forest_leaves queue node_queue"
      by (simp add: forest_leaves_def)
    ultimately show ?thesis using unf by simp
  qed
qed

section \<open>Frequency tables\<close>

lemma chr_ord [simp]: "chr (ord c) = c"
  by (simp add: chr_def ord_def)

lemma leaf_entries_nth:
  "leaf_entries i ft \<Longrightarrow> j < length ft \<Longrightarrow> ft ! j = Some node \<Longrightarrow>
   \<exists>c. ord c = i + j \<and> node = HuffmanNode (Some [c]) (freq node) None None"
proof (induction i ft arbitrary: j rule: leaf_entries.induct)
  case (1 i)
  then show ?case by simp
next
  case (2 i ft)
  then show ?case by (cases j) auto
next
  case (3 i n ft)
  show ?case
  proof (cases j)
    case 0
    with 3 show ?thesis
      by (cases n) (auto split: option.splits list.splits)
  next
    case (Suc k)
    with 3 show ?thesis by auto
  qed
qed

lemma present_nodes_snoc:
  "present_nodes (ft @ [x]) = present_nodes ft @ (case x of None \<Rightarrow> [] | Some n \<Rightarrow> [n])"
  by (induction ft rule: present_nodes.induct) (auto split: option.splits)

lemma present_nodes_nth:
  "present_nodes ft = map (\<lambda>i. the (ft ! i)) (filter (\<lambda>i. ft ! i \<noteq> None) [0..<length ft])"
proof (induction ft rule: rev_induct)
  case Nil
  then show ?case by simp
next
  case (snoc x xs)
  have "filter (\<lambda>i. (xs @ [x]) ! i \<noteq> None) [0..<length xs] =
        filter (\<lambda>i. xs ! i \<noteq> None) [0..<length xs]"
    by (rule filter_cong) (auto simp: nth_append)
  moreover have "map (\<lambda>i. the ((xs @ [x]) ! i)) (filter (\<lambda>i. xs ! i \<noteq> None) [0..<length xs]) =
        map (\<lambda>i. the (xs ! i)) (filter (\<lambda>i. xs ! i \<noteq> None) [0..<length xs])"
    by (rule map_cong) (auto simp: nth_append)
  ultimately show ?case using snoc
    by (cases x) (simp_all add: present_nodes_snoc)
qed

lemma symbol_table_present:
  assumes "symbol_table ft"
  shows "present_nodes ft = map (conc (table_weight ft)) (map Leaf (table_symbols ft))"
proof -
  have "the (ft ! i) = conc (table_weight ft) (Leaf (chr i))"
    if "i < length ft" "ft ! i \<noteq> None" for i
  proof -
    from that obtain n where n: "ft ! i = Some n" by auto
    from leaf_entries_nth[OF assms[unfolded symbol_table_def] that(1) n]
    obtain c where c: "ord c = i" "n = HuffmanNode (Some [c]) (freq n) None None" by auto
    then have "chr i = c" by auto
    with c n show ?thesis by (simp add: table_weight_def)
  qed
  then show ?thesis
    unfolding present_nodes_nth table_symbols_def by (auto simp: comp_def)
qed

lemma symbol_table_distinct:
  assumes "symbol_table ft"
  shows "distinct (table_symbols ft)"
proof -
  have "inj_on chr {i. i < length ft \<and> ft ! i \<noteq> None}"
  proof (rule inj_onI)
    fix i j assume i: "i \<in> {i. i < length ft \<and> ft ! i \<noteq> None}"
      and j: "j \<in> {i. i < length ft \<and> ft ! i \<noteq> None}" and eq: "chr i = chr j"
    from i obtain n where "i < length ft" "ft ! i = Some n" by auto
    from leaf_entries_nth[OF assms[unfolded symbol_table_def] this]
    obtain c where c: "ord c = i" by auto
    from j obtain m where "j < length ft" "ft ! j = Some m" by auto
    from leaf_entries_nth[OF assms[unfolded symbol_table_def] this]
    obtain d where d: "ord d = j" by auto
    from c d eq show "i = j" by auto
  qed
  then show ?thesis
    unfolding table_symbols_def by (auto simp: distinct_map intro: inj_on_subset)
qed

lemma insort_key_map:
  "insort_key f (g x) (map g xs) = map g (insort_key (\<lambda>x. f (g x)) x xs)"
  by (induction xs) auto

lemma sort_key_map:
  "sort_key f (map g xs) = map g (sort_key (\<lambda>x. f (g x)) xs)"
  by (induction xs) (auto simp: insort_key_map)

lemma forest_leaves_sorted_leaves:
  "forest_leaves (sort_key f (map Leaf cs)) [] = mset cs"
proof -
  have "forest_leaves q [] = sum_mset (image_mset (\<lambda>t. mset (leaves t)) (mset q))" for q :: "'a code_tree list"
    by (induction q) (simp_all add: forest_leaves_def)
  then have "forest_leaves (sort_key f (map Leaf cs)) [] =
      sum_mset (image_mset (\<lambda>t. mset (leaves t)) (mset (map Leaf cs)))"
    by simp
  also have "\<dots> = mset cs"
    by (induction cs) simp_all
  finally show ?thesis .
qed

lemma construct_huffman_tree_cases:
  assumes st: "symbol_table ft"
  shows "if 1 < length (table_symbols ft)
         then \<exists>l r. construct_huffman_tree ft = Inr (conc (table_weight ft) (Fork l r)) \<and>
           mset (leaves (Fork l r)) = mset (table_symbols ft) \<and>
           tree_loop (table_weight ft)
             (sort_key (weight (table_weight ft)) (map Leaf (table_symbols ft))) [] =
             ([], [Fork l r])
         else construct_huffman_tree ft = Inl IndexError"
proof -
  let ?w = "table_weight ft"
  let ?q = "sort_key (weight ?w) (map Leaf (table_symbols ft))"
  have q: "sort_key freq (present_nodes ft) = map (conc ?w) ?q"
    by (simp add: symbol_table_present[OF st] sort_key_map)
  show ?thesis
  proof (cases "1 < length ?q + length ([] :: char code_tree list)")
    case True
    from tree_loop_result[OF True, of ?w] obtain t where
      t: "tree_loop ?w ?q [] = ([], [t])" and lv: "mset (leaves t) = forest_leaves ?q []"
      by blast
    from huffman_loop_conc[OF t] q have r: "construct_huffman_tree ft = Inr (conc ?w t)"
      by (simp add: construct_huffman_tree_def)
    from lv have lv': "mset (leaves t) = mset (table_symbols ft)"
      by (simp add: forest_leaves_sorted_leaves)
    from True have "1 < size (mset (table_symbols ft))" by simp
    with lv' have "1 < length (leaves t)" by (metis size_mset)
    then obtain l r where "t = Fork l r" by (cases t) auto
    with r lv' t True show ?thesis by auto
  next
    case False
    then have "tree_loop ?w ?q [] = (?q, [])" by (simp add: tree_loop.simps)
    from huffman_loop_conc[OF this] q False show ?thesis
      by (simp add: construct_huffman_tree_def)
  qed
qed

lemma construct_huffman_tree_symbol_table:
  assumes st: "symbol_table ft" and root: "construct_huffman_tree ft = Inr root"
  shows "\<exists>l r. root = conc (table_weight ft) (Fork l r) \<and>
           mset (leaves (Fork l r)) = mset (table_symbols ft) \<and>
           tree_loop (table_weight ft)
             (sort_key (weight (table_weight ft)) (map Leaf (table_symbols ft))) [] =
             ([], [Fork l r])"
  using construct_huffman_tree_cases[OF st] root
  by (cases "1 < length (table_symbols ft)") auto

text \<open>
  C6: for every dictionary that \<open>construct_dict\<close> derives from a tree that
  \<open>construct_huffman_tree\<close> builds from a frequency table (each entry \<open>None\<close> or the
  leaf of the symbol of its index), and for every two distinct symbols with a codeword
  in it, neither codeword is a prefix of the other.
\<close>

theorem dictionary_prefix_free:
  assumes "symbol_table frequency_table"
    and "construct_huffman_tree frequency_table = Inr root"
    and "construct_dict (Some root) None None = Inr dictionary"
    and "a \<noteq> b"
    and "dictionary ! ord a = Some code_a"
    and "dictionary ! ord b = Some code_b"
  shows "\<not> prefix code_a code_b \<and> \<not> prefix code_b code_a"
proof -
  from construct_huffman_tree_symbol_table[OF assms(1,2)] obtain l r where
    root: "root = conc (table_weight frequency_table) (Fork l r)"
    and lv: "mset (leaves (Fork l r)) = mset (table_symbols frequency_table)"
    by blast
  let ?t = "Fork l r"
  from lv symbol_table_distinct[OF assms(1)] have dist: "distinct (leaves ?t)"
    by (metis mset_eq_imp_distinct_iff)
  from assms(3) have d: "dictionary = store_all (codes ?t []) (replicate ASCII_MAX None)"
    unfolding root construct_dict_root by simp
  have look: "dictionary ! ord c = (if c \<in> set (leaves ?t) then Some (path ?t c) else None)" for c
    unfolding d using dict_lookup[OF dist, of "replicate ASCII_MAX None" "[]" c] ord_less[of c]
    by simp
  from look[of a] assms(5) have a: "a \<in> set (leaves ?t)" "code_a = path ?t a"
    by (auto split: if_splits)
  from look[of b] assms(6) have b: "b \<in> set (leaves ?t)" "code_b = path ?t b"
    by (auto split: if_splits)
  from path_prefix_free[OF dist a(1) b(1) assms(4)] path_prefix_free[OF dist b(1) a(1)] assms(4)
  show ?thesis using a(2) b(2) by auto
qed

theorem dictionary_prefix_free_witness:
  "symbol_table (entries [(CHR ''a'', leaf CHR ''a'' 2), (CHR ''b'', leaf CHR ''b'' 2),
              (CHR ''c'', leaf CHR ''c'' 1)])
   \<and> construct_huffman_tree (entries [(CHR ''a'', leaf CHR ''a'' 2), (CHR ''b'', leaf CHR ''b'' 2),
              (CHR ''c'', leaf CHR ''c'' 1)]) = Inr (inner 5 (leaf CHR ''b'' 2) (inner 3 (leaf CHR ''c'' 1) (leaf CHR ''a'' 2)))
   \<and> construct_dict (Some (inner 5 (leaf CHR ''b'' 2) (inner 3 (leaf CHR ''c'' 1) (leaf CHR ''a'' 2)))) None None =
       Inr (entries [(CHR ''a'', [True, True]), (CHR ''b'', [False]), (CHR ''c'', [True, False])])
   \<and> CHR ''a'' \<noteq> CHR ''c''
   \<and> entries [(CHR ''a'', [True, True]), (CHR ''b'', [False]), (CHR ''c'', [True, False])] ! ord CHR ''a'' = Some [True, True]
   \<and> entries [(CHR ''a'', [True, True]), (CHR ''b'', [False]), (CHR ''c'', [True, False])] ! ord CHR ''c'' = Some [True, False]
   \<and> \<not> prefix [True, True] [True, False] \<and> \<not> prefix [True, False] [True, True]"
proof -
  let ?ft = "entries [(CHR ''a'', leaf CHR ''a'' 2), (CHR ''b'', leaf CHR ''b'' 2),
              (CHR ''c'', leaf CHR ''c'' 1)]"
  let ?root = "inner 5 (leaf CHR ''b'' 2) (inner 3 (leaf CHR ''c'' 1) (leaf CHR ''a'' 2))"
  let ?d = "entries [(CHR ''a'', [True, True]), (CHR ''b'', [False]), (CHR ''c'', [True, False])]"
  have 1: "symbol_table ?ft" by code_simp
  have 2: "construct_huffman_tree ?ft = Inr ?root" by code_simp
  have 3: "construct_dict (Some ?root) None None = Inr ?d" by code_simp
  have 4: "CHR ''a'' \<noteq> CHR ''c''" by simp
  have 5: "?d ! ord CHR ''a'' = Some [True, True]" by code_simp
  have 6: "?d ! ord CHR ''c'' = Some [True, False]" by code_simp
  from dictionary_prefix_free [OF 1 2 3 4 5 6] 1 2 3 4 5 6 show ?thesis by blast
qed

section \<open>The frequency table of a string\<close>

lemma construct_frequency_table_loop_counts:
  "counts_table cnt ft \<Longrightarrow>
   \<exists>ft'. construct_frequency_table_loop string ft = Inr ft' \<and>
         counts_table (\<lambda>c. cnt c + count_list string c) ft'"
proof (induction string arbitrary: cnt ft)
  case Nil
  then show ?case by simp
next
  case (Cons x xs)
  let ?n = "HuffmanNode (Some [x]) (int (cnt x) + 1) None None"
  let ?ft = "ft[ord x := Some ?n]"
  from Cons.prems have len: "length ft = ASCII_MAX"
    and ent: "\<And>c. ft ! ord c =
        (if cnt c = 0 then None else Some (HuffmanNode (Some [c]) (int (cnt c)) None None))"
    by (auto simp: counts_table_def)
  have step: "construct_frequency_table_loop (x # xs) ft = construct_frequency_table_loop xs ?ft"
    using len ord_less[of x] ent[of x] by (simp add: Let_def)
  have "counts_table (cnt(x := Suc (cnt x))) ?ft"
    unfolding counts_table_def using len ent ord_less by (auto simp: nth_list_update)
  from Cons.IH[OF this] obtain ft' where
    "construct_frequency_table_loop xs ?ft = Inr ft'"
    "counts_table (\<lambda>c. (cnt(x := Suc (cnt x))) c + count_list xs c) ft'"
    by blast
  moreover have "(\<lambda>c. (cnt(x := Suc (cnt x))) c + count_list xs c) =
      (\<lambda>c. cnt c + count_list (x # xs) c)"
    by auto
  ultimately show ?case using step by auto
qed

lemma construct_frequency_table_counts:
  "\<exists>ft. construct_frequency_table string = Inr ft \<and> counts_table (count_list string) ft"
proof -
  have "counts_table (\<lambda>c. 0) (replicate ASCII_MAX None)"
    using ord_less by (simp add: counts_table_def)
  from construct_frequency_table_loop_counts[OF this, of string] show ?thesis
    by (simp add: construct_frequency_table_def)
qed

lemma ord_chr: "i < ASCII_MAX \<Longrightarrow> ord (chr i) = i"
  by (simp add: ord_def chr_def ASCII_MAX_def)

lemma leaf_entries_intro:
  "(\<And>j node. j < length ft \<Longrightarrow> ft ! j = Some node \<Longrightarrow>
      \<exists>c. ord c = i + j \<and> node = HuffmanNode (Some [c]) (freq node) None None) \<Longrightarrow>
   leaf_entries i ft"
proof (induction i ft rule: leaf_entries.induct)
  case (1 i)
  then show ?case by simp
next
  case (2 i ft)
  have "leaf_entries (Suc i) ft"
  proof (rule "2.IH")
    fix j node assume "j < length ft" "ft ! j = Some node"
    with "2.prems"[of "Suc j" node]
    show "\<exists>c. ord c = Suc i + j \<and> node = HuffmanNode (Some [c]) (freq node) None None"
      by simp
  qed
  then show ?case by simp
next
  case (3 i n ft)
  have "leaf_entries (Suc i) ft"
  proof (rule "3.IH")
    fix j node assume "j < length ft" "ft ! j = Some node"
    with "3.prems"[of "Suc j" node]
    show "\<exists>c. ord c = Suc i + j \<and> node = HuffmanNode (Some [c]) (freq node) None None"
      by simp
  qed
  moreover from "3.prems"[of 0 n] obtain c where
    "ord c = i" "n = HuffmanNode (Some [c]) (freq n) None None" by auto
  then have "case val n of Some [c] \<Rightarrow> ord c = i \<and> left n = None \<and> right n = None | _ \<Rightarrow> False"
    by (cases n) auto
  ultimately show ?case by simp
qed

lemma counts_table_symbol_table:
  assumes "counts_table cnt ft"
  shows "symbol_table ft"
    and "table_weight ft c = int (cnt c)"
    and "set (table_symbols ft) = {c. cnt c \<noteq> 0}"
proof -
  from assms have len: "length ft = ASCII_MAX"
    and ent: "\<And>c. ft ! ord c =
        (if cnt c = 0 then None else Some (HuffmanNode (Some [c]) (int (cnt c)) None None))"
    by (auto simp: counts_table_def)
  show "symbol_table ft"
    unfolding symbol_table_def
  proof (rule leaf_entries_intro)
    fix j node assume j: "j < length ft" "ft ! j = Some node"
    with len have "ord (chr j) = j" by (simp add: ord_chr)
    with ent[of "chr j"] j(2) show
      "\<exists>c. ord c = 0 + j \<and> node = HuffmanNode (Some [c]) (freq node) None None"
      by (auto split: if_splits)
  qed
  show "table_weight ft c = int (cnt c)"
    by (simp add: table_weight_def ent)
  show "set (table_symbols ft) = {c. cnt c \<noteq> 0}"
  proof (intro set_eqI iffI)
    fix c assume "c \<in> set (table_symbols ft)"
    then obtain i where i: "i < length ft" "ft ! i \<noteq> None" "c = chr i"
      by (auto simp: table_symbols_def)
    with len have "ord c = i" by (simp add: ord_chr)
    with ent[of c] i(2) show "c \<in> {c. cnt c \<noteq> 0}" by (auto split: if_splits)
  next
    fix c assume "c \<in> {c. cnt c \<noteq> 0}"
    with ent[of c] have "ft ! ord c \<noteq> None" by simp
    moreover have "ord c < length ft" using len ord_less by simp
    ultimately show "c \<in> set (table_symbols ft)"
      unfolding table_symbols_def by (auto intro!: image_eqI[of _ chr "ord c"])
  qed
qed

lemma string_pipeline:
  "\<exists>ft. construct_frequency_table string = Inr ft \<and> symbol_table ft \<and>
     (\<forall>c. table_weight ft c = int (count_list string c)) \<and>
     set (table_symbols ft) = set string \<and>
     (if 1 < card (set string)
      then \<exists>l r. construct_huffman_tree ft = Inr (conc (table_weight ft) (Fork l r)) \<and>
             distinct (leaves (Fork l r)) \<and> set (leaves (Fork l r)) = set string \<and>
             tree_loop (table_weight ft)
               (sort_key (weight (table_weight ft)) (map Leaf (table_symbols ft))) [] =
               ([], [Fork l r])
      else construct_huffman_tree ft = Inl IndexError)"
proof -
  from construct_frequency_table_counts[of string] obtain ft where
    ft: "construct_frequency_table string = Inr ft" and ct: "counts_table (count_list string) ft"
    by blast
  note st = counts_table_symbol_table(1)[OF ct]
  have w: "table_weight ft c = int (count_list string c)" for c
    by (rule counts_table_symbol_table(2)[OF ct])
  have syms: "set (table_symbols ft) = set string"
    using counts_table_symbol_table(3)[OF ct] by (auto simp: count_list_0_iff)
  have len: "length (table_symbols ft) = card (set string)"
    using symbol_table_distinct[OF st] syms distinct_card by fastforce
  show ?thesis
  proof (cases "1 < card (set string)")
    case True
    with construct_huffman_tree_cases[OF st] len obtain l r where
      t: "construct_huffman_tree ft = Inr (conc (table_weight ft) (Fork l r))"
      "mset (leaves (Fork l r)) = mset (table_symbols ft)"
      "tree_loop (table_weight ft)
         (sort_key (weight (table_weight ft)) (map Leaf (table_symbols ft))) [] =
         ([], [Fork l r])"
      by auto
    from t(2) symbol_table_distinct[OF st] have "distinct (leaves (Fork l r))"
      by (metis mset_eq_imp_distinct_iff)
    moreover from t(2) syms have "set (leaves (Fork l r)) = set string"
      by (metis set_mset_mset)
    ultimately show ?thesis using ft st w syms t True by auto
  next
    case False
    with construct_huffman_tree_cases[OF st] len ft st w syms show ?thesis by auto
  qed
qed

lemma tree_roundtrip:
  assumes t: "t = Fork l r" and dist: "distinct (leaves t)"
    and sub: "set string \<subseteq> set (leaves t)"
  shows "\<exists>d. construct_dict (Some (conc w t)) None None = Inr d \<and>
           length d = ASCII_MAX \<and>
           (\<forall>c. d ! ord c = (if c \<in> set (leaves t) then Some (path t c) else None)) \<and>
           encode string d = Inr (concat (map (path t) string)) \<and>
           decode (concat (map (path t) string)) (conc w t) = Inr string"
proof -
  let ?d = "store_all (codes t []) (replicate ASCII_MAX None)"
  have cd: "construct_dict (Some (conc w t)) None None = Inr ?d"
    unfolding t by (rule construct_dict_root)
  have look: "?d ! ord c = (if c \<in> set (leaves t) then Some (path t c) else None)" for c
    using dict_lookup[OF dist, of "replicate ASCII_MAX None" "[]" c] ord_less[of c]
    by simp
  have "\<forall>c \<in> set string. ord c < length ?d \<and> ?d ! ord c = Some (path t c)"
    using look sub ord_less by auto
  from encode_loop_known[OF this, of "[]"] have
    enc: "encode string ?d = Inr (concat (map (path t) string))"
    by (simp add: encode_def)
  have "decode_loop (concat (map (path t) string)) (conc w t) [] (conc w t) =
      Inr ([] @ string, conc w t)"
    using sub unfolding t by (rule decode_loop_concat)
  then have dec: "decode (concat (map (path t) string)) (conc w t) = Inr string"
    by (simp add: decode_def)
  from cd look enc dec show ?thesis by auto
qed

text \<open>
  A string with fewer than two distinct symbols gets no tree: \<open>node_queue[0]\<close> raises
  \<open>IndexError\<close>.
\<close>

lemma fewer_than_two_symbols_IndexError:
  "card (set string) \<le> 1 \<Longrightarrow> huffman_tree_of string = Inl IndexError"
  using string_pipeline[of string] by (auto simp: huffman_tree_of_def)

text \<open>
  The round trip on every string with at least two distinct symbols: the table, the
  tree and the dictionary are built, the string is encoded, and decoding the encoding
  gives the string again.
\<close>

theorem roundtrip_two_symbols:
  assumes "a \<in> set string" and "b \<in> set string" and "a \<noteq> b"
  shows "\<exists>frequency_table root dictionary bit_list.
           construct_frequency_table string = Inr frequency_table \<and>
           construct_huffman_tree frequency_table = Inr root \<and>
           construct_dict (Some root) None None = Inr dictionary \<and>
           encode string dictionary = Inr bit_list \<and>
           decode bit_list root = Inr string"
proof -
  have "card {a, b} \<le> card (set string)"
    using assms by (intro card_mono) auto
  with assms(3) have "1 < card (set string)" by simp
  with string_pipeline[of string] obtain ft l r where
    ft: "construct_frequency_table string = Inr ft"
    and t: "construct_huffman_tree ft = Inr (conc (table_weight ft) (Fork l r))"
    and dist: "distinct (leaves (Fork l r))" and lv: "set (leaves (Fork l r)) = set string"
    by auto
  from lv have "set string \<subseteq> set (leaves (Fork l r))" by simp
  from tree_roundtrip[OF refl dist this, of "table_weight ft"] ft t show ?thesis by blast
qed

section \<open>Cost of a code tree\<close>

lemma weight_sum: "distinct (leaves t) \<Longrightarrow> weight w t = (\<Sum>c \<in> set (leaves t). w c)"
  by (induction t) (auto simp: sum.union_disjoint)

lemma cost_sum:
  "distinct (leaves t) \<Longrightarrow>
   cost w t = (\<Sum>c \<in> set (leaves t). w c * int (length (path t c)))"
proof (induction t)
  case (Leaf c)
  then show ?case by simp
next
  case (Fork l r)
  then have dl: "distinct (leaves l)" and dr: "distinct (leaves r)"
    and dis: "set (leaves l) \<inter> set (leaves r) = {}" by auto
  have "(\<Sum>c \<in> set (leaves (Fork l r)). w c * int (length (path (Fork l r) c))) =
      (\<Sum>c \<in> set (leaves l). w c * int (length (path (Fork l r) c))) +
      (\<Sum>c \<in> set (leaves r). w c * int (length (path (Fork l r) c)))"
    using dis by (simp add: sum.union_disjoint)
  also have "(\<Sum>c \<in> set (leaves l). w c * int (length (path (Fork l r) c))) =
      (\<Sum>c \<in> set (leaves l). w c * int (length (path l c)) + w c)"
    by (rule sum.cong) (auto simp: algebra_simps)
  also have "(\<Sum>c \<in> set (leaves r). w c * int (length (path (Fork l r) c))) =
      (\<Sum>c \<in> set (leaves r). w c * int (length (path r c)) + w c)"
    using dis by (intro sum.cong) (auto simp: algebra_simps)
  finally show ?case
    using Fork.IH(1)[OF dl] Fork.IH(2)[OF dr] weight_sum[OF dl, of w] weight_sum[OF dr, of w]
    by (simp add: sum.distrib)
qed

lemma path_le_height: "length (path t c) \<le> height t"
  by (induction t) auto

lemma leaves_rename [simp]: "leaves (rename f t) = map f (leaves t)"
  by (induction t) auto

lemma height_rename [simp]: "height (rename f t) = height t"
  by (induction t) auto

lemma weight_rename: "weight w (rename f t) = weight (\<lambda>c. w (f c)) t"
  by (induction t) auto

lemma cost_rename: "cost w (rename f t) = cost (\<lambda>c. w (f c)) t"
  by (induction t) (auto simp: weight_rename)

lemma path_rename: "inj f \<Longrightarrow> path (rename f t) (f c) = path t c"
  by (induction t) (auto simp: inj_image_mem_iff)

lemma exchange_simps [simp]:
  "exchange a b a = b" "exchange a b b = a"
  "c \<noteq> a \<Longrightarrow> c \<noteq> b \<Longrightarrow> exchange a b c = c"
  "exchange a a c = c"
  by (auto simp: exchange_def)

lemma inj_exchange: "inj (exchange a b)"
  by (auto simp: inj_def exchange_def split: if_splits)

lemma exchange_image:
  "a \<in> A \<Longrightarrow> b \<in> A \<Longrightarrow> exchange a b ` A = A"
  by (auto simp: exchange_def image_iff split: if_splits)

lemma exchange_product:
  fixes wa wx da dx :: int
  assumes "wa \<le> wx" "da \<le> dx"
  shows "wx * da + wa * dx \<le> wa * da + wx * dx"
proof -
  have "0 \<le> (wx - wa) * (dx - da)" using assms by simp
  then show ?thesis by (simp add: algebra_simps)
qed

lemma cost_exchange:
  assumes dist: "distinct (leaves t)" and a: "a \<in> set (leaves t)" and x: "x \<in> set (leaves t)"
    and w: "w a \<le> w x" and d: "length (path t a) \<le> length (path t x)"
  shows "cost w (rename (exchange a x) t) \<le> cost w t"
proof (cases "a = x")
  case True
  then have "(\<lambda>c. w (exchange a x c)) = w" by auto
  then show ?thesis by (simp add: cost_rename)
next
  case False
  let ?L = "set (leaves t)"
  let ?d = "\<lambda>c. int (length (path t c))"
  let ?R = "?L - {a} - {x}"
  have fin: "finite ?L" by simp
  have split: "(\<Sum>c \<in> ?L. g c) = g a + (g x + (\<Sum>c \<in> ?R. g c))" for g :: "'a \<Rightarrow> int"
    using a x False by (simp add: sum.remove[OF fin a] sum.remove[of "?L - {a}" x])
  have "cost w (rename (exchange a x) t) = (\<Sum>c \<in> ?L. w (exchange a x c) * ?d c)"
    by (simp add: cost_rename cost_sum[OF dist])
  also have "\<dots> = w x * ?d a + (w a * ?d x + (\<Sum>c \<in> ?R. w (exchange a x c) * ?d c))"
    by (simp add: split)
  also have "(\<Sum>c \<in> ?R. w (exchange a x c) * ?d c) = (\<Sum>c \<in> ?R. w c * ?d c)"
    by (rule sum.cong) auto
  finally have 1: "cost w (rename (exchange a x) t) =
      w x * ?d a + w a * ?d x + (\<Sum>c \<in> ?R. w c * ?d c)" by simp
  have 2: "cost w t = w a * ?d a + w x * ?d x + (\<Sum>c \<in> ?R. w c * ?d c)"
    by (simp add: cost_sum[OF dist] split)
  from exchange_product[OF w, of "?d a" "?d x"] d 1 2 show ?thesis by simp
qed

section \<open>Sibling leaves\<close>

lemma siblings_leaves: "siblings t x y \<Longrightarrow> x \<in> set (leaves t) \<and> y \<in> set (leaves t)"
  by (induction t) auto

lemma siblings_distinct:
  "distinct (leaves t) \<Longrightarrow> siblings t x y \<Longrightarrow>
   x \<noteq> y \<and> length (path t y) = length (path t x)"
proof (induction t)
  case (Leaf c)
  then show ?case by simp
next
  case (Fork l r)
  from Fork.prems(1) have dl: "distinct (leaves l)" and dr: "distinct (leaves r)"
    and dis: "set (leaves l) \<inter> set (leaves r) = {}" by auto
  consider "l = Leaf x \<and> r = Leaf y" | "siblings l x y" | "siblings r x y"
    using Fork.prems(2) by auto
  then show ?case
  proof cases
    case 1
    with dis show ?thesis by auto
  next
    case 2
    from siblings_leaves[OF 2] Fork.IH(1)[OF dl 2] show ?thesis by simp
  next
    case 3
    from siblings_leaves[OF 3] dis have "x \<notin> set (leaves l)" "y \<notin> set (leaves l)" by auto
    with Fork.IH(2)[OF dr 3] show ?thesis by simp
  qed
qed

lemma siblings_rename: "siblings t x y \<Longrightarrow> siblings (rename f t) (f x) (f y)"
  by (induction t) auto

lemma height_pos_Fork: "0 < height t \<Longrightarrow> \<exists>l r. t = Fork l r"
  by (cases t) auto

lemma deepest_pair_Fork:
  "\<not> (\<exists>a b. l = Leaf a \<and> r = Leaf b) \<Longrightarrow>
   deepest_pair (Fork l r) = (if height r \<le> height l then deepest_pair l else deepest_pair r)"
  by (cases l; cases r) auto

lemma height_0_Leaf: "height t = 0 \<Longrightarrow> \<exists>c. t = Leaf c"
  by (cases t) auto

lemma deepest_pair_siblings:
  "0 < height t \<Longrightarrow> distinct (leaves t) \<Longrightarrow> deepest_pair t = (x, y) \<Longrightarrow>
   siblings t x y \<and> length (path t x) = height t"
proof (induction t arbitrary: x y)
  case (Leaf c)
  then show ?case by simp
next
  case (Fork l r)
  from Fork.prems(2) have dl: "distinct (leaves l)" and dr: "distinct (leaves r)"
    and dis: "set (leaves l) \<inter> set (leaves r) = {}" by auto
  show ?case
  proof (cases "\<exists>a b. l = Leaf a \<and> r = Leaf b")
    case True
    with Fork.prems(3) show ?thesis by auto
  next
    case nl: False
    note dp = deepest_pair_Fork[OF nl]
    show ?thesis
    proof (cases "height r \<le> height l")
      case True
      with dp Fork.prems(3) have dpl: "deepest_pair l = (x, y)" by simp
      have "0 < height l"
      proof (rule ccontr)
        assume "\<not> 0 < height l"
        with True have "height l = 0" "height r = 0" by auto
        with nl height_0_Leaf show False by blast
      qed
      from Fork.IH(1)[OF this dl dpl] have
        sib: "siblings l x y" and len: "length (path l x) = height l" by auto
      from siblings_leaves[OF sib] have "x \<in> set (leaves l)" by simp
      then have "path (Fork l r) x = False # path l x" by simp
      with sib len True show ?thesis by (simp add: max_def)
    next
      case False
      with dp Fork.prems(3) have dpr: "deepest_pair r = (x, y)" by simp
      from False have "0 < height r" by simp
      from Fork.IH(2)[OF this dr dpr] have
        sib: "siblings r x y" and len: "length (path r x) = height r" by auto
      from siblings_leaves[OF sib] dis have "x \<notin> set (leaves l)" by auto
      then have "path (Fork l r) x = True # path r x" by simp
      with sib len False show ?thesis by (simp add: max_def)
    qed
  qed
qed

lemma weight_cong:
  "(\<And>c. c \<in> set (leaves t) \<Longrightarrow> w c = v c) \<Longrightarrow> weight w t = weight v t"
  by (induction t) auto

lemma cost_cong:
  "(\<And>c. c \<in> set (leaves t) \<Longrightarrow> w c = v c) \<Longrightarrow> cost w t = cost v t"
proof (induction t)
  case (Leaf c)
  then show ?case by simp
next
  case (Fork l r)
  then have "cost w l = cost v l" "cost w r = cost v r" by auto
  moreover from Fork.prems have "weight w l = weight v l" "weight w r = weight v r"
    by (auto intro: weight_cong)
  ultimately show ?case by simp
qed

lemma merge_siblings_absent: "x \<notin> set (leaves t) \<Longrightarrow> merge_siblings x y t = t"
  by (induction t) auto

lemma merge_siblings_props:
  assumes w': "w' x = w x + w y" "\<And>c. c \<noteq> x \<Longrightarrow> w' c = w c"
  shows "distinct (leaves t) \<Longrightarrow> siblings t x y \<Longrightarrow>
     set (leaves (merge_siblings x y t)) = set (leaves t) - {y} \<and>
     distinct (leaves (merge_siblings x y t)) \<and>
     weight w' (merge_siblings x y t) = weight w t \<and>
     cost w' (merge_siblings x y t) + w x + w y = cost w t"
proof (induction t)
  case (Leaf c)
  then show ?case by simp
next
  case (Fork l r)
  from Fork.prems(1) have dl: "distinct (leaves l)" and dr: "distinct (leaves r)"
    and dis: "set (leaves l) \<inter> set (leaves r) = {}" by auto
  consider "l = Leaf x \<and> r = Leaf y" | "\<not> (l = Leaf x \<and> r = Leaf y)" "siblings l x y"
    | "\<not> (l = Leaf x \<and> r = Leaf y)" "siblings r x y"
    using Fork.prems(2) by auto
  then show ?case
  proof cases
    case 1
    with dis w' show ?thesis by auto
  next
    case 2
    from siblings_leaves[OF 2(2)] dis have xr: "x \<notin> set (leaves r)" and yr: "y \<notin> set (leaves r)"
      by auto
    have mr: "merge_siblings x y r = r" using xr by (rule merge_siblings_absent)
    have eqr: "w' c = w c" if "c \<in> set (leaves r)" for c
      using that xr w'(2)[of c] by auto
    have wr: "weight w' r = weight w r" using eqr by (rule weight_cong)
    have cr: "cost w' r = cost w r" using eqr by (rule cost_cong)
    from Fork.IH(1)[OF dl 2(2)] 2(1) mr wr cr dr dis yr
    show ?thesis by auto
  next
    case 3
    from siblings_leaves[OF 3(2)] dis have xl: "x \<notin> set (leaves l)" and yl: "y \<notin> set (leaves l)"
      by auto
    have ml: "merge_siblings x y l = l" using xl by (rule merge_siblings_absent)
    have eql: "w' c = w c" if "c \<in> set (leaves l)" for c
      using that xl w'(2)[of c] by auto
    have wl: "weight w' l = weight w l" using eql by (rule weight_cong)
    have cl: "cost w' l = cost w l" using eql by (rule cost_cong)
    from Fork.IH(2)[OF dr 3(2)] 3(1) ml wl cl dl dis yl
    show ?thesis by auto
  qed
qed

text \<open>
  In a tree with at least two leaves, the two symbols of smallest weight can be made
  sibling leaves at the greatest depth without raising the cost; merging them then
  gives a tree for the alphabet without \<open>b\<close>, where \<open>a\<close> carries both weights.
\<close>

lemma two_smallest_merged:
  assumes dist: "distinct (leaves u)"
    and a: "a \<in> set (leaves u)" and b: "b \<in> set (leaves u)" and ab: "a \<noteq> b"
    and wab: "w a \<le> w b"
    and wb: "\<And>c. c \<in> set (leaves u) \<Longrightarrow> c \<noteq> a \<Longrightarrow> w b \<le> w c"
    and w': "w' a = w a + w b" "\<And>c. c \<noteq> a \<Longrightarrow> w' c = w c"
  shows "\<exists>u'. distinct (leaves u') \<and> set (leaves u') = set (leaves u) - {b} \<and>
           cost w' u' + w a + w b \<le> cost w u"
proof -
  have "0 < height u"
  proof (cases u)
    case (Leaf c)
    with a b ab show ?thesis by simp
  next
    case (Fork l r)
    then show ?thesis by simp
  qed
  obtain x y where dp: "deepest_pair u = (x, y)" by (cases "deepest_pair u")
  from deepest_pair_siblings[OF \<open>0 < height u\<close> dist dp] have
    sib: "siblings u x y" and dx: "length (path u x) = height u" by auto
  from siblings_leaves[OF sib] have x: "x \<in> set (leaves u)" and y: "y \<in> set (leaves u)"
    by auto
  from siblings_distinct[OF dist sib] have xy: "x \<noteq> y" by simp
  have wa: "w a \<le> w c" if "c \<in> set (leaves u)" for c
    using wb[OF that] wab by (cases "c = a") auto
  \<comment> \<open>first exchange: \<open>a\<close> takes the place of \<open>x\<close>\<close>
  let ?f = "exchange a x"
  let ?u1 = "rename ?f u"
  have d1: "distinct (leaves ?u1)"
    using dist inj_on_subset[OF inj_exchange[of a x]] by (simp add: distinct_map)
  have s1: "set (leaves ?u1) = set (leaves u)"
    using exchange_image[OF a x] by simp
  have "length (path u a) \<le> length (path u x)"
    using path_le_height[of u a] dx by simp
  from cost_exchange[OF dist a x wa[OF x] this] have c1: "cost w ?u1 \<le> cost w u" .
  let ?y1 = "?f y"
  have sib1: "siblings ?u1 a ?y1"
    using siblings_rename[OF sib, of ?f] by simp
  from siblings_distinct[OF d1 sib1] have ay1: "a \<noteq> ?y1"
    and dy1: "length (path ?u1 ?y1) = length (path ?u1 a)" by auto
  have "path ?u1 (?f x) = path u x" by (rule path_rename[OF inj_exchange])
  then have da1: "length (path ?u1 a) = height ?u1" using dx by simp
  from siblings_leaves[OF sib1] s1 have y1: "?y1 \<in> set (leaves u)" by simp
  \<comment> \<open>second exchange: \<open>b\<close> takes the place of the sibling of \<open>a\<close>\<close>
  let ?g = "exchange b ?y1"
  let ?u2 = "rename ?g ?u1"
  have b1: "b \<in> set (leaves ?u1)" "?y1 \<in> set (leaves ?u1)"
    using b y1 s1 by simp_all
  have d2: "distinct (leaves ?u2)"
    using d1 inj_on_subset[OF inj_exchange[of b ?y1]]
    by (simp only: leaves_rename[of ?g] distinct_map) simp
  have "set (leaves ?u2) = ?g ` set (leaves ?u1)"
    by (simp only: leaves_rename[of ?g] set_map)
  also have "\<dots> = set (leaves ?u1)" by (rule exchange_image[OF b1])
  finally have s2: "set (leaves ?u2) = set (leaves u)" using s1 by (simp only:)
  have wby: "w b \<le> w ?y1" using wb[OF y1] ay1 by simp
  have "length (path ?u1 b) \<le> length (path ?u1 ?y1)"
    using path_le_height[of ?u1 b] dy1 da1 by simp
  from cost_exchange[OF d1 b1 wby this] have c2: "cost w ?u2 \<le> cost w ?u1" .
  have "siblings ?u2 (?g a) (?g ?y1)" by (rule siblings_rename[OF sib1])
  then have sib2: "siblings ?u2 a b" using ab ay1 by simp
  let ?u' = "merge_siblings a b ?u2"
  from merge_siblings_props[of w' a w b, OF w' d2 sib2] have
    m: "set (leaves ?u') = set (leaves ?u2) - {b}" "distinct (leaves ?u')"
    "cost w' ?u' + w a + w b = cost w ?u2"
    by blast+
  from m(1) s2 have "set (leaves ?u') = set (leaves u) - {b}" by (simp only:)
  moreover from m(3) c1 c2 have "cost w' ?u' + w a + w b \<le> cost w u" by linarith
  ultimately show ?thesis using m(2) by blast
qed

lemma weight_split_leaf:
  assumes "w' a = w a + w b" "\<And>c. c \<noteq> a \<Longrightarrow> w' c = w c"
  shows "weight w (split_leaf a b t) = weight w' t"
  using assms by (induction t) auto

lemma split_leaf_absent: "a \<notin> set (leaves t) \<Longrightarrow> split_leaf a b t = t"
  by (induction t) auto

lemma split_leaf_props:
  assumes w': "w' a = w a + w b" "\<And>c. c \<noteq> a \<Longrightarrow> w' c = w c"
  shows "distinct (leaves t) \<Longrightarrow> a \<in> set (leaves t) \<Longrightarrow> b \<notin> set (leaves t) \<Longrightarrow>
     set (leaves (split_leaf a b t)) = insert b (set (leaves t)) \<and>
     distinct (leaves (split_leaf a b t)) \<and>
     cost w (split_leaf a b t) = cost w' t + w a + w b"
proof (induction t)
  case (Leaf c)
  then have "c = a" by simp
  then show ?case using Leaf.prems(3) by auto
next
  case (Fork l r)
  from Fork.prems have dl: "distinct (leaves l)" and dr: "distinct (leaves r)"
    and dis: "set (leaves l) \<inter> set (leaves r) = {}"
    and bl: "b \<notin> set (leaves l)" and br: "b \<notin> set (leaves r)" by auto
  note ws = weight_split_leaf[of w' a w b, OF w']
  show ?case
  proof (cases "a \<in> set (leaves l)")
    case True
    with dis have ar: "a \<notin> set (leaves r)" by auto
    have sr: "split_leaf a b r = r" using ar by (rule split_leaf_absent)
    have eqr: "w' c = w c" if "c \<in> set (leaves r)" for c
      using that ar w'(2)[of c] by auto
    have cr: "cost w' r = cost w r" using eqr by (rule cost_cong)
    from Fork.IH(1)[OF dl True bl] have
      ih: "set (leaves (split_leaf a b l)) = insert b (set (leaves l))"
      "distinct (leaves (split_leaf a b l))"
      "cost w (split_leaf a b l) = cost w' l + w a + w b" by blast+
    have 1: "set (leaves (split_leaf a b (Fork l r))) = insert b (set (leaves (Fork l r)))"
      using ih(1) sr by auto
    have 2: "distinct (leaves (split_leaf a b (Fork l r)))"
      using ih(1,2) sr dr dis br by auto
    have 3: "cost w (split_leaf a b (Fork l r)) = cost w' (Fork l r) + w a + w b"
      using ih(3) sr cr ws[of l] ws[of r] by simp
    from 1 2 3 show ?thesis by blast
  next
    case False
    with Fork.prems(2) have ar: "a \<in> set (leaves r)" by simp
    have sl: "split_leaf a b l = l" using False by (rule split_leaf_absent)
    have eql: "w' c = w c" if "c \<in> set (leaves l)" for c
      using that False w'(2)[of c] by auto
    have cl: "cost w' l = cost w l" using eql by (rule cost_cong)
    from Fork.IH(2)[OF dr ar br] have
      ih: "set (leaves (split_leaf a b r)) = insert b (set (leaves r))"
      "distinct (leaves (split_leaf a b r))"
      "cost w (split_leaf a b r) = cost w' r + w a + w b" by blast+
    have 1: "set (leaves (split_leaf a b (Fork l r))) = insert b (set (leaves (Fork l r)))"
      using ih(1) sl by auto
    have 2: "distinct (leaves (split_leaf a b (Fork l r)))"
      using ih(1,2) sl dl dis bl by auto
    have 3: "cost w (split_leaf a b (Fork l r)) = cost w' (Fork l r) + w a + w b"
      using ih(3) sl cl ws[of l] ws[of r] by simp
    from 1 2 3 show ?thesis by blast
  qed
qed

section \<open>Optimal trees\<close>

lemma optimal_split_leaf:
  assumes opt: "optimal w' t"
    and dist: "distinct (leaves t)" and a: "a \<in> set (leaves t)" and b: "b \<notin> set (leaves t)"
    and wab: "w a \<le> w b"
    and wb: "\<And>c. c \<in> set (leaves t) \<Longrightarrow> c \<noteq> a \<Longrightarrow> w b \<le> w c"
    and w': "w' a = w a + w b" "\<And>c. c \<noteq> a \<Longrightarrow> w' c = w c"
  shows "optimal w (split_leaf a b t)"
  unfolding optimal_def
proof (intro allI impI)
  fix u
  assume du: "distinct (leaves u)" and su: "set (leaves u) = set (leaves (split_leaf a b t))"
  from split_leaf_props[of w' a w b, OF w' dist a b] have
    st: "set (leaves (split_leaf a b t)) = insert b (set (leaves t))"
    and ct: "cost w (split_leaf a b t) = cost w' t + w a + w b" by auto
  from a b have ab: "a \<noteq> b" by auto
  have au: "a \<in> set (leaves u)" and bu: "b \<in> set (leaves u)" using su st a by auto
  have wbu: "w b \<le> w c" if "c \<in> set (leaves u)" "c \<noteq> a" for c
    using that su st wb[of c] by (cases "c = b") auto
  from two_smallest_merged[OF du au bu ab wab wbu w'] obtain u' where
    u': "distinct (leaves u')" "set (leaves u') = set (leaves u) - {b}"
    "cost w' u' + w a + w b \<le> cost w u" by blast
  from u'(2) su st b have "set (leaves u') = set (leaves t)" by auto
  with opt u'(1) have "cost w' t \<le> cost w' u'" by (simp add: optimal_def)
  with ct u'(3) show "cost w (split_leaf a b t) \<le> cost w u" by simp
qed

section \<open>The loop selects two trees of smallest weight\<close>

lemma tree_popmin_props:
  assumes "sorted (map (weight w) list1)" "sorted (map (weight w) list2)"
    and "0 < length list1 + length list2"
    and "tree_popmin w list1 list2 = (m, list1', list2')"
  shows "(list1' = list1 \<and> list2 = m # list2') \<or> (list1 = m # list1' \<and> list2' = list2)"
    and "\<forall>x \<in> set list1 \<union> set list2. weight w m \<le> weight w x"
  using assms
  by (cases list1; cases list2; fastforce simp: tree_popmin_def split: if_splits)+

lemma tree_round_props:
  assumes inv: "tree_inv w queue node_queue"
    and len: "1 < length queue + length node_queue"
  shows "\<exists>a b queue2 node_queue2.
     tree_round w queue node_queue = (queue2, node_queue2 @ [Fork a b]) \<and>
     mset (queue @ node_queue) = {#a, b#} + mset (queue2 @ node_queue2) \<and>
     (\<exists>i. queue2 = drop i queue) \<and> (\<exists>j. node_queue2 = drop j node_queue) \<and>
     weight w a \<le> weight w b \<and>
     (\<forall>x \<in> set queue2 \<union> set node_queue2. weight w b \<le> weight w x) \<and>
     tree_inv w queue2 (node_queue2 @ [Fork a b])"
proof -
  from inv have s1: "sorted (map (weight w) queue)" and s2: "sorted (map (weight w) node_queue)"
    and nn: "\<And>x. x \<in> set queue \<union> set node_queue \<Longrightarrow> 0 \<le> weight w x"
    and J: "\<And>x y. x \<in> set queue \<union> set node_queue \<Longrightarrow> y \<in> set node_queue \<Longrightarrow>
                weight w y \<le> 2 * weight w x"
    unfolding tree_inv_def weights_inv_def by auto
  obtain a q1 nq1 where pa: "tree_popmin w queue node_queue = (a, q1, nq1)"
    by (cases "tree_popmin w queue node_queue")
  from len have l0: "0 < length queue + length node_queue" by linarith
  note A = tree_popmin_props[OF s1 s2 l0 pa]
  from A(1) s1 s2 have s1': "sorted (map (weight w) q1)" and s2': "sorted (map (weight w) nq1)"
    by auto
  from tree_popmin_length[OF l0 pa] len have l1: "0 < length q1 + length nq1" by linarith
  obtain b q2 nq2 where pb: "tree_popmin w q1 nq1 = (b, q2, nq2)"
    by (cases "tree_popmin w q1 nq1")
  note B = tree_popmin_props[OF s1' s2' l1 pb]
  from B(1) s1' s2' have s1'': "sorted (map (weight w) q2)" and s2'': "sorted (map (weight w) nq2)"
    by auto
  have round: "tree_round w queue node_queue = (q2, nq2 @ [Fork a b])"
    by (simp add: tree_round_def pa pb)
  from A(1) have ms1: "mset (queue @ node_queue) = add_mset a (mset (q1 @ nq1))" by auto
  from B(1) have ms2: "mset (q1 @ nq1) = add_mset b (mset (q2 @ nq2))" by auto
  from A(1) have dr1: "(q1 = drop 0 queue \<or> q1 = drop 1 queue) \<and>
      (nq1 = drop 0 node_queue \<or> nq1 = drop 1 node_queue)" by auto
  from B(1) have dr2: "(q2 = drop 0 q1 \<or> q2 = drop 1 q1) \<and> (nq2 = drop 0 nq1 \<or> nq2 = drop 1 nq1)"
    by auto
  from dr1 dr2 have ex1: "\<exists>i. q2 = drop i queue" by (metis drop_drop)
  from dr1 dr2 have ex2: "\<exists>j. nq2 = drop j node_queue" by (metis drop_drop)
  have sub1: "set q1 \<union> set nq1 \<subseteq> set queue \<union> set node_queue" "set nq1 \<subseteq> set node_queue"
    using A(1) by auto
  have sub2: "set q2 \<union> set nq2 \<subseteq> set q1 \<union> set nq1" "set nq2 \<subseteq> set nq1"
    using B(1) by auto
  have ain: "a \<in> set queue \<union> set node_queue" using A(1) by auto
  have bin1: "b \<in> set q1 \<union> set nq1" using B(1) by auto
  with sub1 have bin: "b \<in> set queue \<union> set node_queue" by auto
  have ab: "weight w a \<le> weight w b" using A(2) bin by blast
  have a0: "0 \<le> weight w a" using nn[OF ain] .
  have b0: "0 \<le> weight w b" using nn[OF bin] .
  have rest: "x \<in> set queue \<union> set node_queue \<and> weight w b \<le> weight w x"
    if "x \<in> set q2 \<union> set nq2" for x
    using that sub1 sub2 B(2) by blast
  have old: "y \<in> set node_queue \<and> weight w y \<le> weight w a + weight w b"
    if "y \<in> set nq2" for y
  proof -
    from that sub1 sub2 have y: "y \<in> set node_queue" by auto
    from J[OF ain y] ab show ?thesis using y by simp
  qed
  have "sorted (map (weight w) (nq2 @ [Fork a b]))"
    using s2'' old by (auto simp: sorted_append)
  moreover have "0 \<le> weight w x \<and>
      (\<forall>y \<in> set (nq2 @ [Fork a b]). weight w y \<le> 2 * weight w x)"
    if "x \<in> set q2 \<union> set (nq2 @ [Fork a b])" for x
  proof (cases "x \<in> set q2 \<union> set nq2")
    case True
    from rest[OF True] have xin: "x \<in> set queue \<union> set node_queue"
      and bx: "weight w b \<le> weight w x" by auto
    have "weight w y \<le> 2 * weight w x" if "y \<in> set nq2" for y
      using J[OF xin] old[OF that] by simp
    moreover have "weight w (Fork a b) \<le> 2 * weight w x" using ab bx by simp
    ultimately show ?thesis using nn[OF xin] by auto
  next
    case False
    with that have "x = Fork a b" by auto
    then show ?thesis using a0 b0 old by fastforce
  qed
  then have "\<forall>x \<in> set q2 \<union> set (nq2 @ [Fork a b]). 0 \<le> weight w x \<and>
      (\<forall>y \<in> set (nq2 @ [Fork a b]). weight w y \<le> 2 * weight w x)"
    by blast
  ultimately have "tree_inv w q2 (nq2 @ [Fork a b])"
    unfolding tree_inv_def weights_inv_def using s1'' by (simp add: ball_Un)
  with round ms1 ms2 ex1 ex2 ab rest show ?thesis
    by (intro exI[of _ a] exI[of _ b] exI[of _ q2] exI[of _ nq2]) auto
qed

section \<open>The loop on trees with a split leaf\<close>

lemma tree_popmin_map:
  assumes "\<And>t. weight w (f t) = weight w' t"
    and "0 < length list1 + length list2"
    and "tree_popmin w' list1 list2 = (m, list1', list2')"
  shows "tree_popmin w (map f list1) (map f list2) = (f m, map f list1', map f list2')"
  using assms(2,3)
  by (cases list1; cases list2) (auto simp: tree_popmin_def assms(1) split: if_splits)

lemma tree_round_map:
  assumes wf: "\<And>t. weight w (f t) = weight w' t"
    and ff: "\<And>l r. f (Fork l r) = Fork (f l) (f r)"
    and len: "1 < length queue + length node_queue"
    and r: "tree_round w' queue node_queue = (queue', node_queue')"
  shows "tree_round w (map f queue) (map f node_queue) = (map f queue', map f node_queue')"
proof -
  obtain a q1 nq1 where a: "tree_popmin w' queue node_queue = (a, q1, nq1)"
    by (cases "tree_popmin w' queue node_queue")
  obtain b q2 nq2 where b: "tree_popmin w' q1 nq1 = (b, q2, nq2)"
    by (cases "tree_popmin w' q1 nq1")
  from len have 0: "0 < length queue + length node_queue" by linarith
  from tree_popmin_length[OF this a] len have 1: "0 < length q1 + length nq1" by linarith
  from r a b have eq: "queue' = q2" "node_queue' = nq2 @ [Fork a b]"
    by (simp_all add: tree_round_def)
  show ?thesis
    unfolding tree_round_def tree_popmin_map[of w f w', OF wf 0 a]
    using tree_popmin_map[of w f w', OF wf 1 b] eq ff by simp
qed

lemma tree_loop_map:
  assumes ff: "\<And>l r. f (Fork l r) = Fork (f l) (f r)"
  shows "(\<And>t. weight w (f t) = weight w' t) \<Longrightarrow>
         tree_loop w' queue node_queue = (queue', node_queue') \<Longrightarrow>
         tree_loop w (map f queue) (map f node_queue) = (map f queue', map f node_queue')"
proof (induction w' queue node_queue rule: tree_loop.induct)
  case (1 w' queue node_queue)
  note wf = "1.prems"(1)
  show ?case
  proof (cases "1 < length queue + length node_queue")
    case True
    obtain q1 nq1 where r: "tree_round w' queue node_queue = (q1, nq1)"
      by (cases "tree_round w' queue node_queue")
    from "1.prems"(2) True r have "tree_loop w' q1 nq1 = (queue', node_queue')"
      by (simp add: tree_loop.simps[of w' queue node_queue])
    from "1.IH"[OF True r[symmetric] wf this]
    have "tree_loop w (map f q1) (map f nq1) = (map f queue', map f node_queue')" .
    with tree_round_map[of w f w', OF wf ff True r] True show ?thesis
      by (subst tree_loop.simps) simp
  next
    case False
    with "1.prems"(2) have "queue' = queue" "node_queue' = node_queue"
      by (simp_all add: tree_loop.simps[of w' queue node_queue])
    with False show ?thesis by (subst tree_loop.simps) simp
  qed
qed

section \<open>The tree built from leaves is optimal\<close>

lemma optimal_Leaf: "optimal w (Leaf c)"
  unfolding optimal_def
proof (intro allI impI)
  fix u :: "'a code_tree"
  assume "distinct (leaves u)" "set (leaves u) = set (leaves (Leaf c))"
  then have "u = Leaf c"
  proof (cases u)
    case (Leaf x)
    with \<open>set (leaves u) = set (leaves (Leaf c))\<close> show ?thesis by simp
  next
    case (Fork l r)
    obtain x y where "x \<in> set (leaves l)" "y \<in> set (leaves r)"
      using leaves_nonempty by (metis last_in_set)
    with Fork \<open>set (leaves u) = set (leaves (Leaf c))\<close> \<open>distinct (leaves u)\<close>
    have "x = c" "y = c" "x \<noteq> y" by auto
    then show ?thesis by simp
  qed
  then show "cost w (Leaf c) \<le> cost w u" by simp
qed

lemma map_Leaf_eq_self:
  "a \<notin> set cs \<Longrightarrow> map (split_leaf a b) (map Leaf cs) = map Leaf cs"
  by (induction cs) auto

lemma tree_loop_leaves_optimal:
  "0 < length cs + length ds \<Longrightarrow> distinct (cs @ ds) \<Longrightarrow>
   tree_inv w (map Leaf cs) (map Leaf ds) \<Longrightarrow>
   \<exists>t q' nq'. tree_loop w (map Leaf cs) (map Leaf ds) = (q', nq') \<and> q' @ nq' = [t] \<and>
     optimal w t \<and> distinct (leaves t) \<and> set (leaves t) = set (cs @ ds)"
proof (induction "length cs + length ds" arbitrary: w cs ds rule: less_induct)
  case less
  let ?q = "map Leaf cs" and ?nq = "map Leaf ds"
  show ?case
  proof (cases "1 < length cs + length ds")
    case False
    with less.prems(1) have one: "length cs + length ds = 1" by linarith
    then obtain c where c: "cs @ ds = [c]"
      by (cases cs; cases ds) auto
    have "tree_loop w ?q ?nq = (?q, ?nq)" using one by (simp add: tree_loop.simps)
    moreover have "?q @ ?nq = [Leaf c]" using c by (metis list.simps(8,9) map_append)
    ultimately show ?thesis using c optimal_Leaf[of w c] by auto
  next
    case True
    then have len: "1 < length ?q + length ?nq" by simp
    from tree_round_props[OF less.prems(3) len] obtain a b q2 nq2 i j where
      round: "tree_round w ?q ?nq = (q2, nq2 @ [Fork a b])"
      and ms: "mset (?q @ ?nq) = {#a, b#} + mset (q2 @ nq2)"
      and q2: "q2 = drop i ?q" and nq2: "nq2 = drop j ?nq"
      and ab: "weight w a \<le> weight w b"
      and rest: "\<forall>x \<in> set q2 \<union> set nq2. weight w b \<le> weight w x"
      and inv: "tree_inv w q2 (nq2 @ [Fork a b])"
      by blast
    define cs2 where "cs2 = drop i cs"
    define ds2 where "ds2 = drop j ds"
    have q2': "q2 = map Leaf cs2" and nq2': "nq2 = map Leaf ds2"
      by (simp_all add: q2 nq2 cs2_def ds2_def drop_map)
    from ms have "a \<in># mset (?q @ ?nq)" "b \<in># mset (?q @ ?nq)" by simp_all
    then obtain ca cb where a: "a = Leaf ca" and b: "b = Leaf cb" by auto
    have "image_mset (\<lambda>t. hd (leaves t)) (mset (?q @ ?nq)) =
          image_mset (\<lambda>t. hd (leaves t)) ({#a, b#} + mset (q2 @ nq2))"
      using ms by simp
    then have msc: "mset (cs @ ds) = {#ca, cb#} + mset (cs2 @ ds2)"
      by (simp add: a b q2' nq2' multiset.map_comp comp_def)
    then have msc': "mset (cs @ ds) = mset (ca # cb # cs2 @ ds2)" by simp
    from less.prems(2) msc' have dist: "distinct (ca # cb # cs2 @ ds2)"
      by (metis mset_eq_imp_distinct_iff)
    from msc' have sets: "set (cs @ ds) = set (ca # cb # cs2 @ ds2)"
      by (metis set_mset_mset)
    from msc' have "length (cs @ ds) = length (ca # cb # cs2 @ ds2)"
      by (metis size_mset)
    then have len2: "length cs2 + length (ds2 @ [ca]) < length cs + length ds"
      and pos2: "0 < length cs2 + length (ds2 @ [ca])" by simp_all
    let ?f = "split_leaf ca cb"
    define w' where "w' = w(ca := w ca + w cb)"
    have w': "w' ca = w ca + w cb" "\<And>c. c \<noteq> ca \<Longrightarrow> w' c = w c"
      by (simp_all add: w'_def)
    have wf: "weight w (?f t) = weight w' t" for t
      by (rule weight_split_leaf[of w' ca w cb, OF w'])
    have ca2: "ca \<notin> set cs2" "ca \<notin> set ds2" using dist by auto
    have fq: "map ?f (map Leaf cs2) = q2"
      unfolding q2' using ca2(1) by (rule map_Leaf_eq_self)
    have fnq: "map ?f (map Leaf (ds2 @ [ca])) = nq2 @ [Fork a b]"
      using map_Leaf_eq_self[OF ca2(2), of cb] by (simp add: nq2' a b)
    have dist2: "distinct (cs2 @ ds2 @ [ca])" using dist by auto
    have "map (weight w') (map Leaf cs2) = map (weight w) q2"
      unfolding fq[symmetric] by (simp only: map_map comp_def wf)
    moreover have "map (weight w') (map Leaf (ds2 @ [ca])) = map (weight w) (nq2 @ [Fork a b])"
      unfolding fnq[symmetric] by (simp only: map_map comp_def wf)
    ultimately have inv2: "tree_inv w' (map Leaf cs2) (map Leaf (ds2 @ [ca]))"
      using inv unfolding tree_inv_def by simp
    from less.hyps[OF len2 pos2 _ inv2] dist2 obtain t q' nq' where
      loop': "tree_loop w' (map Leaf cs2) (map Leaf (ds2 @ [ca])) = (q', nq')"
      and one: "q' @ nq' = [t]" and opt: "optimal w' t" and dt: "distinct (leaves t)"
      and st: "set (leaves t) = set (cs2 @ ds2 @ [ca])"
      by auto
    have "tree_loop w ?q ?nq = tree_loop w q2 (nq2 @ [Fork a b])"
      using len round by (subst tree_loop.simps) simp
    also have "\<dots> = tree_loop w (map ?f (map Leaf cs2)) (map ?f (map Leaf (ds2 @ [ca])))"
      by (simp only: fq fnq)
    also have "\<dots> = (map ?f q', map ?f nq')"
      by (rule tree_loop_map[of ?f w w', OF _ wf loop']) simp
    finally have loop: "tree_loop w ?q ?nq = (map ?f q', map ?f nq')" .
    have one': "map ?f q' @ map ?f nq' = [?f t]"
      using one by (metis list.simps(8,9) map_append)
    have cat: "ca \<in> set (leaves t)" and cbt: "cb \<notin> set (leaves t)"
      using st dist by auto
    have wab: "w ca \<le> w cb" using ab a b by simp
    have wb: "w cb \<le> w c" if "c \<in> set (leaves t)" "c \<noteq> ca" for c
    proof -
      from that st have "Leaf c \<in> set q2 \<union> set nq2" by (auto simp: q2' nq2')
      with rest have "weight w b \<le> weight w (Leaf c)" by blast
      then show ?thesis by (simp add: b)
    qed
    have "optimal w (?f t)"
      by (rule optimal_split_leaf[of w' t ca cb w, OF opt dt cat cbt wab wb w'])
    moreover from split_leaf_props[of w' ca w cb, OF w' dt cat cbt] st sets
    have "distinct (leaves (?f t))" "set (leaves (?f t)) = set (cs @ ds)" by auto
    ultimately show ?thesis using loop one' by blast
  qed
qed

section \<open>Prefix-free codes\<close>

lemma prefix_free_single:
  assumes "prefix_free A code" "a \<in> A" "code a = []"
  shows "A = {a}"
proof -
  have "b = a" if "b \<in> A" for b
  proof (rule ccontr)
    assume "b \<noteq> a"
    then have "a \<noteq> b" by simp
    from assms(1)[unfolded prefix_free_def, rule_format, OF assms(2) that this]
    show False using assms(3) by simp
  qed
  with assms(2) show ?thesis by blast
qed

lemma prefix_free_tl:
  assumes pf: "prefix_free A code" and sub: "B \<subseteq> A"
    and hd: "\<And>c. c \<in> B \<Longrightarrow> code c \<noteq> [] \<and> hd (code c) = h"
  shows "prefix_free B (\<lambda>c. tl (code c))"
  unfolding prefix_free_def
proof (intro ballI impI notI)
  fix a b assume a: "a \<in> B" and b: "b \<in> B" and ne: "a \<noteq> b"
    and p: "prefix (tl (code a)) (tl (code b))"
  from hd[OF a] obtain xs where xs: "code a = h # xs" by (cases "code a") auto
  from hd[OF b] obtain ys where ys: "code b = h # ys" by (cases "code b") auto
  from p xs ys have "prefix (code a) (code b)" by simp
  with pf a b ne sub show False unfolding prefix_free_def by blast
qed

lemma prefix_free_tree:
  "finite A \<Longrightarrow> A \<noteq> {} \<Longrightarrow> prefix_free A code \<Longrightarrow> (\<forall>c \<in> A. length (code c) \<le> k) \<Longrightarrow>
   \<exists>u. distinct (leaves u) \<and> set (leaves u) = A \<and>
       (\<forall>c \<in> A. length (path u c) \<le> length (code c))"
proof (induction k arbitrary: A code)
  case 0
  then obtain a where a: "a \<in> A" by auto
  with 0 have "code a = []" by auto
  from prefix_free_single[OF "0.prems"(3) a this] have "A = {a}" .
  then show ?case by (intro exI[of _ "Leaf a"]) simp
next
  case (Suc k)
  show ?case
  proof (cases "\<exists>a. A = {a}")
    case True
    then obtain a where "A = {a}" by auto
    then show ?thesis by (intro exI[of _ "Leaf a"]) simp
  next
    case False
    have ne: "code c \<noteq> []" if "c \<in> A" for c
      using prefix_free_single[OF Suc.prems(3) that] False by auto
    let ?code = "\<lambda>c. tl (code c)"
    define A0 where "A0 = {c \<in> A. hd (code c) = False}"
    define A1 where "A1 = {c \<in> A. hd (code c) = True}"
    have un: "A = A0 \<union> A1" and dis: "A0 \<inter> A1 = {}" by (auto simp: A0_def A1_def)
    have fin: "finite A0" "finite A1" using Suc.prems(1) by (auto simp: A0_def A1_def)
    have pf0: "prefix_free A0 ?code"
      by (rule prefix_free_tl[OF Suc.prems(3), of A0 False]) (auto simp: A0_def ne)
    have pf1: "prefix_free A1 ?code"
      by (rule prefix_free_tl[OF Suc.prems(3), of A1 True]) (auto simp: A1_def ne)
    have len: "length (?code c) \<le> k" "Suc (length (?code c)) = length (code c)"
      if "c \<in> A" for c
      using Suc.prems(4) ne[OF that] that by (cases "code c"; fastforce)+
    have len0: "\<forall>c \<in> A0. length (?code c) \<le> k" using len un by auto
    have len1: "\<forall>c \<in> A1. length (?code c) \<le> k" using len un by auto
    show ?thesis
    proof (cases "A0 = {}")
      case True
      with un have "A1 = A" by simp
      with Suc.IH[OF fin(2) _ pf1 len1] Suc.prems(2) obtain u where
        du: "distinct (leaves u)" "set (leaves u) = A"
        and u: "\<forall>c \<in> A. length (path u c) \<le> length (?code c)" by auto
      have "length (path u c) \<le> length (code c)" if "c \<in> A" for c
      proof -
        have "length (?code c) \<le> length (code c)" by simp
        moreover from u that have "length (path u c) \<le> length (?code c)" by blast
        ultimately show ?thesis by linarith
      qed
      with du show ?thesis by blast
    next
      case n0: False
      show ?thesis
      proof (cases "A1 = {}")
        case True
        with un have "A0 = A" by simp
        with Suc.IH[OF fin(1) _ pf0 len0] Suc.prems(2) obtain u where
          du: "distinct (leaves u)" "set (leaves u) = A"
          and u: "\<forall>c \<in> A. length (path u c) \<le> length (?code c)" by auto
        have "length (path u c) \<le> length (code c)" if "c \<in> A" for c
        proof -
        have "length (?code c) \<le> length (code c)" by simp
        moreover from u that have "length (path u c) \<le> length (?code c)" by blast
        ultimately show ?thesis by linarith
      qed
        with du show ?thesis by blast
      next
        case n1: False
        from Suc.IH[OF fin(1) n0 pf0 len0] obtain u0 where u0: "distinct (leaves u0)"
          "set (leaves u0) = A0" "\<forall>c \<in> A0. length (path u0 c) \<le> length (?code c)" by auto
        from Suc.IH[OF fin(2) n1 pf1 len1] obtain u1 where u1: "distinct (leaves u1)"
          "set (leaves u1) = A1" "\<forall>c \<in> A1. length (path u1 c) \<le> length (?code c)" by auto
        have "distinct (leaves (Fork u0 u1))" using u0 u1 dis by simp
        moreover have "set (leaves (Fork u0 u1)) = A" using u0 u1 un by simp
        moreover have "length (path (Fork u0 u1) c) \<le> length (code c)" if "c \<in> A" for c
        proof (cases "c \<in> A0")
          case True
          with u0 len(2)[OF that] show ?thesis by fastforce
        next
          case False
          with that un have c1: "c \<in> A1" by auto
          with u1 len(2)[OF that] False u0(2) show ?thesis by fastforce
        qed
        ultimately show ?thesis by blast
      qed
    qed
  qed
qed

section \<open>The encoded length\<close>

lemma length_concat_count:
  "length (concat (map f string)) = (\<Sum>c \<in> set string. count_list string c * length (f c))"
  by (simp add: length_concat comp_def sum_list_map_eq_sum_count)

lemma sorted_leaves_optimal:
  assumes dist: "distinct syms" and ne: "syms \<noteq> []" and nn: "\<And>c. 0 \<le> w c"
    and loop: "tree_loop w (sort_key (weight w) (map Leaf syms)) [] = ([], [t])"
  shows "optimal w t"
proof -
  let ?cs = "sort_key w syms"
  have q: "sort_key (weight w) (map Leaf syms) = map Leaf ?cs"
    by (simp add: sort_key_map)
  have inv: "tree_inv w (map Leaf ?cs) (map Leaf [])"
    unfolding tree_inv_def weights_inv_def using nn by (simp add: comp_def)
  have "0 < length ?cs + length ([] :: 'a list)" using ne by simp
  moreover have "distinct (?cs @ [])" using dist by simp
  ultimately obtain t' q' nq' where
    "tree_loop w (map Leaf ?cs) (map Leaf []) = (q', nq')" "q' @ nq' = [t']" "optimal w t'"
    using tree_loop_leaves_optimal[OF _ _ inv] by blast
  with loop q show ?thesis by simp
qed

text \<open>
  C9: for every input whose frequency table, tree and dictionary are built from it and
  which is encoded with that dictionary, the length of the encoding is the sum over the
  distinct symbols of the input of frequency times codeword length, and no prefix-free
  binary code on these symbols gives a smaller sum.
\<close>

theorem encoded_length_minimal:
  assumes "construct_frequency_table string = Inr frequency_table"
    and "construct_huffman_tree frequency_table = Inr root"
    and "construct_dict (Some root) None None = Inr dictionary"
    and "encode string dictionary = Inr bit_list"
  shows "(\<forall>c \<in> set string. \<exists>sequence. dictionary ! ord c = Some sequence)
       \<and> length bit_list =
           (\<Sum>c \<in> set string. count_list string c * codeword_length dictionary c)
       \<and> (\<forall>code. prefix_free (set string) code \<longrightarrow>
            length bit_list \<le> (\<Sum>c \<in> set string. count_list string c * length (code c)))"
proof -
  let ?w = "table_weight frequency_table"
  from string_pipeline[of string] assms(1,2) obtain l r where
    st: "symbol_table frequency_table"
    and w: "\<And>c. ?w c = int (count_list string c)"
    and syms: "set (table_symbols frequency_table) = set string"
    and root: "root = conc ?w (Fork l r)"
    and dist: "distinct (leaves (Fork l r))" and lv: "set (leaves (Fork l r)) = set string"
    and loop: "tree_loop ?w (sort_key (weight ?w) (map Leaf (table_symbols frequency_table))) []
                 = ([], [Fork l r])"
    by (auto split: if_splits)
  define t where "t = Fork l r"
  note dist = dist[folded t_def] and lv = lv[folded t_def] and loop = loop[folded t_def]
    and root = root[folded t_def]
  from lv have sub: "set string \<subseteq> set (leaves t)" by simp
  from tree_roundtrip[OF t_def dist sub, of ?w] assms(3,4) root have
    look: "\<And>c. dictionary ! ord c = (if c \<in> set (leaves t) then Some (path t c) else None)"
    and bits: "bit_list = concat (map (path t) string)"
    by auto
  have cl: "codeword_length dictionary c = length (path t c)" if "c \<in> set string" for c
    using that look[of c] lv by (simp add: codeword_length_def)
  have len: "length bit_list = (\<Sum>c \<in> set string. count_list string c * length (path t c))"
    unfolding bits by (rule length_concat_count)
  then have 1: "length bit_list =
      (\<Sum>c \<in> set string. count_list string c * codeword_length dictionary c)"
    using cl by simp
  have ne: "table_symbols frequency_table \<noteq> []"
    using syms lv by (metis leaves_nonempty set_empty)
  have opt: "optimal ?w t"
    by (rule sorted_leaves_optimal[OF symbol_table_distinct[OF st] ne _ loop]) (simp add: w)
  have cost_t: "cost ?w t = int (length bit_list)"
    unfolding cost_sum[OF dist] lv len by (simp add: w)
  have 2: "length bit_list \<le> (\<Sum>c \<in> set string. count_list string c * length (code c))"
    if pf: "prefix_free (set string) code" for code
  proof -
    have "set string \<noteq> {}" using lv by (metis leaves_nonempty set_empty)
    moreover have "\<forall>c \<in> set string. length (code c) \<le> Max (length ` code ` set string)"
      by simp
    ultimately obtain u where u: "distinct (leaves u)" "set (leaves u) = set string"
      "\<forall>c \<in> set string. length (path u c) \<le> length (code c)"
      using prefix_free_tree[OF _ _ pf] by (metis List.finite_set)
    from opt u(1,2) lv have "cost ?w t \<le> cost ?w u" by (simp add: optimal_def)
    also have "\<dots> = (\<Sum>c \<in> set string. ?w c * int (length (path u c)))"
      by (simp add: cost_sum[OF u(1)] u(2))
    also have "\<dots> \<le> (\<Sum>c \<in> set string. ?w c * int (length (code c)))"
      using u(3) by (intro sum_mono mult_left_mono) (simp_all add: w)
    also have "\<dots> = int (\<Sum>c \<in> set string. count_list string c * length (code c))"
      by (simp add: w)
    finally have "int (length bit_list) \<le>
        int (\<Sum>c \<in> set string. count_list string c * length (code c))"
      using cost_t by simp
    then show ?thesis by (simp only: of_nat_le_iff)
  qed
  have 0: "\<forall>c \<in> set string. \<exists>sequence. dictionary ! ord c = Some sequence"
    using look lv by simp
  from 0 1 2 show ?thesis by blast
qed

text \<open>
  The witness is the input \<open>aabbc\<close>, encoded in 8 bits, against the code of fixed
  length 2, which spends 10.
\<close>

theorem encoded_length_minimal_witness:
  "construct_frequency_table ''aabbc'' =
     Inr (entries [(CHR ''a'', leaf CHR ''a'' 2), (CHR ''b'', leaf CHR ''b'' 2),
              (CHR ''c'', leaf CHR ''c'' 1)])
   \<and> construct_huffman_tree (entries [(CHR ''a'', leaf CHR ''a'' 2), (CHR ''b'', leaf CHR ''b'' 2),
              (CHR ''c'', leaf CHR ''c'' 1)]) = Inr (inner 5 (leaf CHR ''b'' 2) (inner 3 (leaf CHR ''c'' 1) (leaf CHR ''a'' 2)))
   \<and> construct_dict (Some (inner 5 (leaf CHR ''b'' 2) (inner 3 (leaf CHR ''c'' 1) (leaf CHR ''a'' 2)))) None None =
       Inr (entries [(CHR ''a'', [True, True]), (CHR ''b'', [False]), (CHR ''c'', [True, False])])
   \<and> encode ''aabbc'' (entries [(CHR ''a'', [True, True]), (CHR ''b'', [False]), (CHR ''c'', [True, False])]) = Inr [True, True, True, True, False, False, True, False]
   \<and> length [True, True, True, True, False, False, True, False] =
       (\<Sum>c \<in> set ''aabbc''. count_list ''aabbc'' c * codeword_length (entries [(CHR ''a'', [True, True]), (CHR ''b'', [False]), (CHR ''c'', [True, False])]) c)
   \<and> prefix_free (set ''aabbc'')
         (\<lambda>c. if c = CHR ''a'' then [False, False]
            else if c = CHR ''b'' then [False, True] else [True, False])
   \<and> length [True, True, True, True, False, False, True, False] \<le>
       (\<Sum>c \<in> set ''aabbc''. count_list ''aabbc'' c * length ((\<lambda>c. if c = CHR ''a'' then [False, False]
            else if c = CHR ''b'' then [False, True] else [True, False]) c))"
proof -
  let ?ft = "entries [(CHR ''a'', leaf CHR ''a'' 2), (CHR ''b'', leaf CHR ''b'' 2),
              (CHR ''c'', leaf CHR ''c'' 1)]"
  let ?root = "inner 5 (leaf CHR ''b'' 2) (inner 3 (leaf CHR ''c'' 1) (leaf CHR ''a'' 2))"
  let ?d = "entries [(CHR ''a'', [True, True]), (CHR ''b'', [False]), (CHR ''c'', [True, False])]"
  have 1: "construct_frequency_table ''aabbc'' = Inr ?ft" by code_simp
  have 2: "construct_huffman_tree ?ft = Inr ?root" by code_simp
  have 3: "construct_dict (Some ?root) None None = Inr ?d" by code_simp
  have 4: "encode ''aabbc'' ?d = Inr [True, True, True, True, False, False, True, False]" by code_simp
  have 5: "prefix_free (set ''aabbc'')
         (\<lambda>c. if c = CHR ''a'' then [False, False]
            else if c = CHR ''b'' then [False, True] else [True, False])"
    by (simp add: prefix_free_def)
  from encoded_length_minimal [OF 1 2 3 4] 1 2 3 4 5 show ?thesis by blast
qed

end
